theory Spec2Isabelle
  imports Complex_Main "HOL-Library.Word" "HOL-Library.Sublist"
begin

text \<open>
  The streaming chat client of the frontend: the reader and payload interpreter of
  \<open>streamChat\<close> and the requests beside it (\<open>app/lib/api.ts\<close>), and the state of the chat
  screen with the handlers that send a question, select a conversation and create one
  (\<open>app/chat/ChatLayout.tsx\<close>, \<open>app/chat/components/ChatWindow.tsx\<close>).

  What the platform does is taken as given: \<open>JSON.parse\<close> is a parameter, \<open>fetch\<close> and the
  body's reader are given by what they resolve to, and the clock is an argument. A React
  state update is a field update of the state record; the code between two \<open>await\<close>s is
  one step.
\<close>

section \<open>JavaScript strings\<close>

text \<open>
  A JavaScript string is a sequence of UTF-16 code units. \<open>js\<close> gives the code units of an
  ASCII literal of the source.
\<close>

type_synonym jsstring = "16 word list"

definition js :: "string \<Rightarrow> jsstring" where
  "js s = map of_char s"

text \<open>
  \<open>String.prototype.trim\<close> strips WhiteSpace and LineTerminator code points (ECMA-262,
  11.2 and 11.3) from both ends.
\<close>

definition isWhiteSpace :: "16 word \<Rightarrow> bool" where
  "isWhiteSpace c =
     (c = 0x9 \<or> c = 0xA \<or> c = 0xB \<or> c = 0xC \<or> c = 0xD \<or> c = 0x20 \<or> c = 0xA0
      \<or> c = 0x1680 \<or> (0x2000 \<le> c \<and> c \<le> 0x200A) \<or> c = 0x2028 \<or> c = 0x2029
      \<or> c = 0x202F \<or> c = 0x205F \<or> c = 0x3000 \<or> c = 0xFEFF)"

definition trim :: "jsstring \<Rightarrow> jsstring" where
  "trim s = rev (dropWhile isWhiteSpace (rev (dropWhile isWhiteSpace s)))"

text \<open>\<open>s.indexOf(p)\<close>: the first position where \<open>p\<close> occurs; \<open>None\<close> stands for -1.\<close>

fun indexOf :: "'a list \<Rightarrow> 'a list \<Rightarrow> nat option" where
  "indexOf [] p = (if p = [] then Some 0 else None)"
| "indexOf (c # cs) p =
     (if prefix p (c # cs) then Some 0 else map_option Suc (indexOf cs p))"

text \<open>\<open>s.split("\n")\<close>: the pieces between newlines; the empty string gives one empty piece.\<close>

fun split_lines :: "jsstring \<Rightarrow> jsstring list" where
  "split_lines [] = [[]]"
| "split_lines (c # cs) =
     (if c = 0xA then [] # split_lines cs
      else (case split_lines cs of
              [] \<Rightarrow> [[c]]
            | l # ls \<Rightarrow> (c # l) # ls))"

section \<open>Parsed JSON values\<close>

text \<open>
  The value \<open>JSON.parse\<close> returns. An object is the list of its own properties, each key
  once. A number is carried as it is: the code never inspects one.
\<close>

datatype json =
    JNull
  | JBool bool
  | JNum real
  | JStr jsstring
  | JArr "json list"
  | JObj "(jsstring \<times> json) list"

text \<open>
  Reading a property \<open>v.k\<close> of a parsed value, for the keys the code reads (\<open>error\<close>,
  \<open>delta\<close>, \<open>citations\<close>, \<open>source\<close>, \<open>filename\<close>, \<open>page\<close>, \<open>content\<close>; none is a
  built-in property of a string, number, boolean or array). \<open>None\<close> is \<open>undefined\<close>.
  Reading a property of \<open>null\<close> throws a TypeError instead: the callers test
  \<open>throwsOnRead\<close> first.
\<close>

definition throwsOnRead :: "json \<Rightarrow> bool" where
  "throwsOnRead v = (v = JNull)"

fun getProp :: "json \<Rightarrow> jsstring \<Rightarrow> json option" where
  "getProp (JObj fs) k = map_of fs k"
| "getProp v k = None"

text \<open>\<open>typeof v === "string"\<close> and \<open>Array.isArray(v)\<close>, giving the string or the elements.\<close>

fun typeofString :: "json option \<Rightarrow> jsstring option" where
  "typeofString (Some (JStr s)) = Some s"
| "typeofString v = None"

fun isArray :: "json option \<Rightarrow> json list option" where
  "isArray (Some (JArr xs)) = Some xs"
| "isArray v = None"

section \<open>Citations (lib/types.ts, lib/api.ts)\<close>

text \<open>
  The API type is a cast of parsed JSON, not a check: a field holds whatever value the
  object has under that key, or \<open>undefined\<close> (\<open>None\<close>).
\<close>

record CitationAPI =
  api_source :: "json option"
  api_filename :: "json option"
  api_page :: "json option"
  api_content :: "json option"

record Citation =
  c_source :: "json option"
  c_filename :: "json option"
  c_page :: json
  c_content :: "json option"

text \<open>\<open>api.page ?? null\<close>: \<open>undefined\<close> and \<open>null\<close> both give \<open>null\<close>.\<close>

definition mapCitation :: "CitationAPI \<Rightarrow> Citation" where
  "mapCitation api =
     \<lparr> c_source = api_source api,
       c_filename = api_filename api,
       c_page = (case api_page api of None \<Rightarrow> JNull | Some v \<Rightarrow> v),
       c_content = api_content api \<rparr>"

text \<open>
  \<open>mapCitation\<close> applied to an element of a parsed array reads its four properties; on
  \<open>null\<close> the first read throws (\<open>None\<close>). Record fields carry a prefix, since two
  records of the source share field names.
\<close>

definition citationOfValue :: "json \<Rightarrow> Citation option" where
  "citationOfValue v =
     (if throwsOnRead v then None
      else Some (mapCitation
        \<lparr> api_source = getProp v (js ''source''),
          api_filename = getProp v (js ''filename''),
          api_page = getProp v (js ''page''),
          api_content = getProp v (js ''content'') \<rparr>))"

section \<open>streamChat (lib/api.ts)\<close>

text \<open>
  The calls made on the handlers, in order. \<open>onComplete\<close>, \<open>onError\<close> and \<open>onCitations\<close>
  are optional (\<open>handlers.onError?.(m)\<close>): the call is recorded here, and is a no-op when
  the caller supplied no such handler. Handlers are taken not to throw.
\<close>

datatype stream_call =
    OnToken jsstring
  | OnComplete
  | OnError jsstring
  | OnCitations "Citation list"

text \<open>The variables the closure \<open>processPayload\<close> writes: \<open>completed\<close> and the handlers.\<close>

record stream_run =
  completed :: bool
  calls :: "stream_call list"

text \<open>At the start of a stream \<open>completed\<close> is false and no call has been made.\<close>

definition fresh :: stream_run where
  "fresh = \<lparr> completed = False, calls = [] \<rparr>"

definition malformed :: "stream_run \<Rightarrow> stream_run" where
  "malformed h =
     h\<lparr> calls := calls h @ [OnError (js ''Received malformed streaming payload.'')],
        completed := True \<rparr>"

text \<open>
  \<open>parse\<close> stands for \<open>JSON.parse\<close>: \<open>None\<close> when it throws. Every exception inside the
  \<open>try\<close> block ends in the \<open>catch\<close> branch \<open>malformed\<close>. The theorems hold for every
  \<open>parse\<close>; an example gives it as the table (\<open>map_of\<close>) of the payload texts that occur
  in it, each with the value \<open>JSON.parse\<close> returns for it.
\<close>

definition processPayload ::
  "(jsstring \<Rightarrow> json option) \<Rightarrow> jsstring \<Rightarrow> stream_run \<Rightarrow> stream_run" where
  "processPayload parse payload h =
     (let trimmed = trim payload in
      if trimmed = [] then h
      else if trimmed = js ''[DONE]'' then
        h\<lparr> completed := True, calls := calls h @ [OnComplete] \<rparr>
      else
        (case parse trimmed of
           None \<Rightarrow> malformed h
         | Some parsed \<Rightarrow>
             if throwsOnRead parsed then malformed h
             else
               (case typeofString (getProp parsed (js ''error'')) of
                  Some (e # es) \<Rightarrow>
                    h\<lparr> calls := calls h @ [OnError (e # es)], completed := True \<rparr>
                | _ \<Rightarrow>
                    (case typeofString (getProp parsed (js ''delta'')) of
                       Some d \<Rightarrow> h\<lparr> calls := calls h @ [OnToken d] \<rparr>
                     | None \<Rightarrow>
                         (case isArray (getProp parsed (js ''citations'')) of
                            None \<Rightarrow> h
                          | Some cs \<Rightarrow>
                              (case those (map citationOfValue cs) of
                                 None \<Rightarrow> malformed h
                               | Some mapped \<Rightarrow>
                                   h\<lparr> calls := calls h @ [OnCitations mapped] \<rparr>))))))"

text \<open>
  \<open>processChunk\<close>: each line of the frame that starts with \<open>data:\<close> is interpreted, the
  five characters of the prefix sliced off.
\<close>

definition processLine ::
  "(jsstring \<Rightarrow> json option) \<Rightarrow> stream_run \<Rightarrow> jsstring \<Rightarrow> stream_run" where
  "processLine parse h line =
     (if prefix (js ''data:'') line then processPayload parse (drop 5 line) h else h)"

definition processChunk ::
  "(jsstring \<Rightarrow> json option) \<Rightarrow> jsstring \<Rightarrow> stream_run \<Rightarrow> stream_run" where
  "processChunk parse chunk h = foldl (processLine parse) h (split_lines chunk)"

lemma indexOf_bound: "indexOf s p = Some i \<Longrightarrow> i + length p \<le> length s"
proof (induction s arbitrary: i)
  case Nil
  then show ?case by (simp split: if_splits)
next
  case (Cons c cs)
  show ?case
  proof (cases "prefix p (c # cs)")
    case True
    with Cons.prems have "i = 0" by simp
    with prefix_length_le [OF True] show ?thesis by simp
  next
    case False
    with Cons.prems obtain j where "indexOf cs p = Some j" "i = Suc j" by auto
    with Cons.IH show ?thesis by fastforce
  qed
qed

text \<open>
  The inner loop of the reader: while the buffer holds the delimiter (two newlines), the
  text before it goes to \<open>processChunk\<close> and the buffer continues after it. The loop is
  written over any frame handler \<open>pc\<close> acting on any state; \<open>streamChat\<close> runs it with its
  own \<open>processChunk\<close>.
\<close>

function drain :: "(jsstring \<Rightarrow> 'h \<Rightarrow> 'h) \<Rightarrow> jsstring \<Rightarrow> 'h \<Rightarrow> jsstring \<times> 'h" where
  "drain pc buffer h =
     (case indexOf buffer [0xA, 0xA] of
        None \<Rightarrow> (buffer, h)
      | Some splitIndex \<Rightarrow>
          drain pc (drop (splitIndex + 2) buffer) (pc (take splitIndex buffer) h))"
  by pat_completeness auto
termination
proof (relation "measure (\<lambda>(pc, buffer, h). length buffer)")
  show "wf (measure (\<lambda>(pc, buffer, h). length buffer))" by simp
next
  fix pc :: "jsstring \<Rightarrow> 'h \<Rightarrow> 'h" and buffer :: jsstring and h :: 'h and splitIndex :: nat
  assume "indexOf buffer [0xA, 0xA] = Some splitIndex"
  then have "splitIndex + 2 \<le> length buffer"
    using indexOf_bound [of buffer "[0xA, 0xA]" splitIndex] by simp
  then show "((pc, drop (splitIndex + 2) buffer, pc (take splitIndex buffer) h), (pc, buffer, h))
          \<in> measure (\<lambda>(pc, buffer, h). length buffer)"
    by simp
qed

declare drain.simps [simp del]

text \<open>The outer loop: each chunk read is appended to the buffer, then the buffer is drained.\<close>

fun read_chunks ::
  "(jsstring \<Rightarrow> 'h \<Rightarrow> 'h) \<Rightarrow> jsstring list \<Rightarrow> jsstring \<Rightarrow> 'h \<Rightarrow> jsstring \<times> 'h" where
  "read_chunks pc [] buffer h = (buffer, h)"
| "read_chunks pc (chunk # chunks) buffer h =
     (case drain pc (buffer @ chunk) h of
        (buffer', h') \<Rightarrow> read_chunks pc chunks buffer' h')"

text \<open>
  After the last read: the decoder's final output \<open>tail\<close> joins the buffer, and what is left
  is processed as a frame unless it is empty once trimmed.
\<close>

definition flush :: "(jsstring \<Rightarrow> 'h \<Rightarrow> 'h) \<Rightarrow> jsstring \<Rightarrow> 'h \<Rightarrow> 'h" where
  "flush pc buffer h = (if trim buffer \<noteq> [] then pc buffer h else h)"

text \<open>A value that was thrown: an \<open>Error\<close> with its message, or anything else.\<close>

datatype thrown = Error jsstring | NotAnError

text \<open>
  How the body's reader ends: the stream is done, with what the decoder's last
  \<open>decode()\<close> returns (empty unless the bytes stop inside a character), or a read rejects.
\<close>

datatype read_end = Done jsstring | ReadFails thrown

definition thrownMessage :: "thrown \<Rightarrow> jsstring \<Rightarrow> jsstring" where
  "thrownMessage e fallback = (case e of Error m \<Rightarrow> m | NotAnError \<Rightarrow> fallback)"

text \<open>
  The \<open>try\<close> and \<open>catch\<close> of \<open>streamChat\<close>, over the texts the decoder gave for each read
  in order and the way the reader ended; then the whole with its \<open>finally\<close>, which calls
  \<open>onComplete\<close> unless \<open>completed\<close> is set.
\<close>

definition read_try ::
  "(jsstring \<Rightarrow> json option) \<Rightarrow> jsstring list \<Rightarrow> read_end \<Rightarrow> stream_run" where
  "read_try parse chunks end =
     (case read_chunks (processChunk parse) chunks [] fresh of
        (buffer, h) \<Rightarrow>
          (case end of
             Done tail \<Rightarrow> flush (processChunk parse) (buffer @ tail) h
           | ReadFails e \<Rightarrow>
               h\<lparr> calls := calls h @ [OnError (thrownMessage e (js ''Streaming interrupted.''))],
                  completed := True \<rparr>))"

definition read_body ::
  "(jsstring \<Rightarrow> json option) \<Rightarrow> jsstring list \<Rightarrow> read_end \<Rightarrow> stream_run" where
  "read_body parse chunks end =
     (let h = read_try parse chunks end
      in if \<not> completed h then h\<lparr> calls := calls h @ [OnComplete] \<rparr> else h)"

text \<open>A call that ends a stream for its receiver: completion or an error.\<close>

fun terminal :: "stream_call \<Rightarrow> bool" where
  "terminal OnComplete = True"
| "terminal (OnError m) = True"
| "terminal (OnToken t) = False"
| "terminal (OnCitations cs) = False"

text \<open>
  A property of a piece of the run, used in the proofs. \<open>emits f cs\<close>: from any state, \<open>f\<close>
  appends the calls \<open>cs\<close> and sets \<open>completed\<close> exactly when one of them is terminal.
\<close>

definition emits :: "(stream_run \<Rightarrow> stream_run) \<Rightarrow> stream_call list \<Rightarrow> bool" where
  "emits f cs =
     (\<forall>h. calls (f h) = calls h @ cs \<and> completed (f h) = (completed h \<or> list_ex terminal cs))"

text \<open>
  The frames the reader hands to \<open>processChunk\<close>, in order: the same loops run with a
  handler that records its argument.
\<close>

definition record_frame :: "jsstring \<Rightarrow> jsstring list \<Rightarrow> jsstring list" where
  "record_frame frame fs = fs @ [frame]"

definition frames_of :: "jsstring list \<Rightarrow> jsstring \<Rightarrow> jsstring list" where
  "frames_of chunks tail =
     (case read_chunks record_frame chunks [] [] of
        (buffer, fs) \<Rightarrow> flush record_frame (buffer @ tail) fs)"

text \<open>
  What \<open>fetch\<close> resolved to for the streaming request: the status flag, the status text,
  the body read as text (used when the request failed) and, unless the body is \<open>null\<close>,
  the texts of the reads with the way the reader ends.
\<close>

record stream_response =
  sr_ok :: bool
  sr_statusText :: jsstring
  sr_text :: jsstring
  sr_body :: "(jsstring list \<times> read_end) option"

text \<open>\<open>a || b\<close> on strings: the empty string is falsy.\<close>

definition orElse :: "jsstring \<Rightarrow> jsstring \<Rightarrow> jsstring" where
  "orElse a b = (if a \<noteq> [] then a else b)"

text \<open>
  \<open>streamChat\<close>: what it throws, if anything (a rejected \<open>fetch\<close> is \<open>Inl\<close>), and the calls it
  made on the handlers. The guard \<open>!response.ok || !response.body\<close> is the two error
  branches.
\<close>

definition streamChat ::
  "(jsstring \<Rightarrow> json option) \<Rightarrow> thrown + stream_response \<Rightarrow> thrown option \<times> stream_call list" where
  "streamChat parse fetched =
     (case fetched of
        Inl e \<Rightarrow> (Some e, [])
      | Inr response \<Rightarrow>
          (case sr_body response of
             None \<Rightarrow> (None, [OnError (orElse (sr_text response) (sr_statusText response))])
           | Some (chunks, end) \<Rightarrow>
               if \<not> sr_ok response then
                 (None, [OnError (orElse (sr_text response) (sr_statusText response))])
               else (None, calls (read_body parse chunks end))))"

section \<open>Non-streaming requests (lib/api.ts)\<close>

text \<open>
  What \<open>fetch\<close> resolved to: the status flag, the status text, the body as text and the
  outcome of \<open>response.json()\<close>, cast to the type the caller expects.
\<close>

record 'a response =
  r_ok :: bool
  r_statusText :: jsstring
  r_text :: jsstring
  r_json :: "thrown + 'a"

definition http :: "thrown + 'a response \<Rightarrow> thrown + 'a" where
  "http fetched =
     (case fetched of
        Inl e \<Rightarrow> Inl e
      | Inr response \<Rightarrow>
          if \<not> r_ok response then Inl (Error (orElse (r_text response) (r_statusText response)))
          else r_json response)"

text \<open>
  The records of \<open>lib/types.ts\<close> and the API types of \<open>lib/api.ts\<close>, as declared; a field
  that may be \<open>null\<close> or absent is an option.
\<close>

datatype MessageRole = User | Assistant | System

record ConversationSummaryAPI =
  sa_id :: jsstring
  sa_title :: jsstring
  sa_last_message_preview :: "jsstring option"
  sa_updated_at :: jsstring

record ConversationSummary =
  s_id :: jsstring
  s_title :: jsstring
  s_lastMessagePreview :: "jsstring option"
  s_updatedAt :: jsstring

record ConversationMessageAPI =
  ma_role :: MessageRole
  ma_content :: jsstring
  ma_created_at :: jsstring
  ma_citations :: "CitationAPI list option"

record ConversationMessage =
  m_role :: MessageRole
  m_content :: jsstring
  m_createdAt :: jsstring
  m_citations :: "Citation list option"

record ConversationDetailAPI =
  da_id :: jsstring
  da_title :: jsstring
  da_messages :: "ConversationMessageAPI list"
  da_created_at :: jsstring
  da_updated_at :: jsstring

record ConversationDetail =
  d_id :: jsstring
  d_title :: jsstring
  d_messages :: "ConversationMessage list"
  d_createdAt :: jsstring
  d_updatedAt :: jsstring

definition mapConversationSummary :: "ConversationSummaryAPI \<Rightarrow> ConversationSummary" where
  "mapConversationSummary api =
     \<lparr> s_id = sa_id api,
       s_title = sa_title api,
       s_lastMessagePreview = sa_last_message_preview api,
       s_updatedAt = sa_updated_at api \<rparr>"

definition mapConversationMessage :: "ConversationMessageAPI \<Rightarrow> ConversationMessage" where
  "mapConversationMessage api =
     \<lparr> m_role = ma_role api,
       m_content = ma_content api,
       m_createdAt = ma_created_at api,
       m_citations = (case ma_citations api of
                        None \<Rightarrow> None
                      | Some cs \<Rightarrow> Some (map mapCitation cs)) \<rparr>"

definition mapConversationDetail :: "ConversationDetailAPI \<Rightarrow> ConversationDetail" where
  "mapConversationDetail api =
     \<lparr> d_id = da_id api,
       d_title = da_title api,
       d_messages = map mapConversationMessage (da_messages api),
       d_createdAt = da_created_at api,
       d_updatedAt = da_updated_at api \<rparr>"

definition listConversations ::
  "thrown + ConversationSummaryAPI list response \<Rightarrow> thrown + ConversationSummary list" where
  "listConversations fetched =
     (case http fetched of
        Inl e \<Rightarrow> Inl e
      | Inr data \<Rightarrow> Inr (map mapConversationSummary data))"

definition createConversation ::
  "thrown + ConversationDetailAPI response \<Rightarrow> thrown + ConversationDetail" where
  "createConversation fetched =
     (case http fetched of
        Inl e \<Rightarrow> Inl e
      | Inr data \<Rightarrow> Inr (mapConversationDetail data))"

definition getConversation ::
  "thrown + ConversationDetailAPI response \<Rightarrow> thrown + ConversationDetail" where
  "getConversation fetched =
     (case http fetched of
        Inl e \<Rightarrow> Inl e
      | Inr data \<Rightarrow> Inr (mapConversationDetail data))"

definition renameConversation ::
  "thrown + ConversationDetailAPI response \<Rightarrow> thrown + ConversationDetail" where
  "renameConversation fetched =
     (case http fetched of
        Inl e \<Rightarrow> Inl e
      | Inr data \<Rightarrow> Inr (mapConversationDetail data))"

text \<open>The two deletes call \<open>fetch\<close> themselves; neither reads a JSON body.\<close>

definition deleteConversation :: "thrown + 'a response \<Rightarrow> thrown + unit" where
  "deleteConversation fetched =
     (case fetched of
        Inl e \<Rightarrow> Inl e
      | Inr response \<Rightarrow>
          if \<not> r_ok response then Inl (Error (orElse (r_text response) (r_statusText response)))
          else Inr ())"

definition deleteDocument :: "thrown + 'a response \<Rightarrow> thrown + unit" where
  "deleteDocument fetched =
     (case fetched of
        Inl e \<Rightarrow> Inl e
      | Inr response \<Rightarrow> Inr ())"


section \<open>The chat screen (chat/ChatLayout.tsx, chat/components/ChatWindow.tsx)\<close>

text \<open>
  The React state the claims are about: the state variables of \<open>ChatLayout\<close> and the draft
  \<open>question\<close> of \<open>ChatWindow\<close>. \<open>null\<close> is \<open>None\<close>.
\<close>

record ui_state =
  conversations :: "ConversationSummary list"
  selectedConversationId :: "jsstring option"
  conversation :: "ConversationDetail option"
  streamingAnswer :: jsstring
  isStreaming :: bool
  error :: "jsstring option"
  isSidebarOpen :: bool
  question :: jsstring

definition summarize :: "ConversationDetail \<Rightarrow> ConversationSummary" where
  "summarize detail =
     \<lparr> s_id = d_id detail,
       s_title = d_title detail,
       s_lastMessagePreview =
         (if d_messages detail \<noteq> [] then Some (m_content (last (d_messages detail))) else None),
       s_updatedAt = d_updatedAt detail \<rparr>"

text \<open>
  The state at mount (the arguments of \<open>useState\<close>); \<open>sidebar\<close> is the sidebar preference,
  stored or initial.
\<close>

definition initialState :: "bool \<Rightarrow> ui_state" where
  "initialState sidebar =
     \<lparr> conversations = [],
       selectedConversationId = None,
       conversation = None,
       streamingAnswer = [],
       isStreaming = False,
       error = None,
       isSidebarOpen = sidebar,
       question = [] \<rparr>"

definition loadConversation ::
  "jsstring \<Rightarrow> thrown + ConversationDetailAPI response \<Rightarrow> ui_state \<Rightarrow> ui_state" where
  "loadConversation conversationId fetched st =
     (case getConversation fetched of
        Inr detail \<Rightarrow> st\<lparr> conversation := Some detail, selectedConversationId := Some conversationId \<rparr>
      | Inl err \<Rightarrow> st\<lparr> error := Some (thrownMessage err (js ''Unable to load conversation.'')) \<rparr>)"

definition handleCreateConversation ::
  "thrown + ConversationDetailAPI response \<Rightarrow> ui_state \<Rightarrow> ui_state" where
  "handleCreateConversation fetched st =
     (let st1 = st\<lparr> error := None \<rparr> in
      case createConversation fetched of
        Inr detail \<Rightarrow>
          st1\<lparr> conversation := Some detail,
               selectedConversationId := Some (d_id detail),
               conversations :=
                 take 5 (summarize detail # filter (\<lambda>c. s_id c \<noteq> d_id detail) (conversations st1)),
               isSidebarOpen := True \<rparr>
      | Inl err \<Rightarrow> st1\<lparr> error := Some (thrownMessage err (js ''Unable to create conversation.'')) \<rparr>)"

text \<open>
  \<open>handleSelectConversation\<close>: the part before the \<open>await\<close> (the banner cleared, the buffer
  emptied, the flag lowered), the part after it (the conversation loaded, the sidebar
  closed on a small screen), and the two together.
\<close>

definition selectBegin :: "ui_state \<Rightarrow> ui_state" where
  "selectBegin st = st\<lparr> error := None, streamingAnswer := [], isStreaming := False \<rparr>"

definition selectLoaded ::
  "jsstring \<Rightarrow> thrown + ConversationDetailAPI response \<Rightarrow> bool \<Rightarrow> ui_state \<Rightarrow> ui_state" where
  "selectLoaded conversationId fetched isDesktop st =
     (let st2 = loadConversation conversationId fetched st
      in if \<not> isDesktop then st2\<lparr> isSidebarOpen := False \<rparr> else st2)"

definition handleSelectConversation ::
  "jsstring \<Rightarrow> thrown + ConversationDetailAPI response \<Rightarrow> bool \<Rightarrow> ui_state \<Rightarrow> ui_state" where
  "handleSelectConversation conversationId fetched isDesktop st =
     selectLoaded conversationId fetched isDesktop (selectBegin st)"

subsection \<open>handleSendQuestion, piece by piece\<close>

text \<open>
  The part before the stream opens, for a selected conversation: the banner is cleared,
  the buffer emptied, the flag raised and the user's message appended to the held
  conversation.
\<close>

definition sendBegin :: "jsstring \<Rightarrow> jsstring \<Rightarrow> ui_state \<Rightarrow> ui_state" where
  "sendBegin q timestamp st =
     st\<lparr> error := None,
         streamingAnswer := [],
         isStreaming := True,
         conversation :=
           (case conversation st of
              None \<Rightarrow> None
            | Some prev \<Rightarrow>
                Some (prev\<lparr> d_messages := d_messages prev @
                  [\<lparr> m_role = User, m_content = q, m_createdAt = timestamp,
                     m_citations = None \<rparr>] \<rparr>)) \<rparr>"

text \<open>
  The handlers given to \<open>streamChat\<close>: \<open>onToken\<close> and \<open>onError\<close>. No \<open>onComplete\<close> and no
  \<open>onCitations\<close> is given, so those calls do nothing.
\<close>

fun sessionHandler :: "stream_call \<Rightarrow> ui_state \<Rightarrow> ui_state" where
  "sessionHandler (OnToken token) st = st\<lparr> streamingAnswer := streamingAnswer st @ token \<rparr>"
| "sessionHandler (OnError message) st = st\<lparr> error := Some message \<rparr>"
| "sessionHandler OnComplete st = st"
| "sessionHandler (OnCitations cs) st = st"

text \<open>The \<open>catch\<close> and \<open>finally\<close> around the call of \<open>streamChat\<close>.\<close>

definition streamSettled :: "thrown option \<Rightarrow> ui_state \<Rightarrow> ui_state" where
  "streamSettled failure st =
     (case failure of
        None \<Rightarrow> st
      | Some err \<Rightarrow> st\<lparr> error := Some (thrownMessage err (js ''Streaming failed.'')) \<rparr>)
     \<lparr> isStreaming := False \<rparr>"

text \<open>
  \<open>Promise.all\<close> of two requests: both results, or the rejection that came first; the flag
  says which came first when both reject.
\<close>

definition promiseAll :: "thrown + 'a \<Rightarrow> thrown + 'b \<Rightarrow> bool \<Rightarrow> thrown + 'a \<times> 'b" where
  "promiseAll a b secondFirst =
     (case a of
        Inr x \<Rightarrow> (case b of Inr y \<Rightarrow> Inr (x, y) | Inl e \<Rightarrow> Inl e)
      | Inl e \<Rightarrow> (case b of Inr y \<Rightarrow> Inl e | Inl e' \<Rightarrow> Inl (if secondFirst then e' else e)))"

text \<open>The refresh after the stream, with its \<open>catch\<close> and \<open>finally\<close>.\<close>

definition reconcile ::
  "thrown + ConversationDetail \<times> ConversationSummary list \<Rightarrow> ui_state \<Rightarrow> ui_state" where
  "reconcile outcome st =
     (case outcome of
        Inr (updatedConversation, updatedSummaries) \<Rightarrow>
          st\<lparr> conversation := Some updatedConversation, conversations := updatedSummaries \<rparr>
      | Inl err \<Rightarrow>
          st\<lparr> error := Some (thrownMessage err (js ''Failed to refresh conversation state.'')) \<rparr>)
     \<lparr> streamingAnswer := [] \<rparr>"

text \<open>
  The environment of one call of \<open>handleSendQuestion\<close>: the clock, what the three requests
  resolve to, and the order of the two refresh requests.
\<close>

record send_env =
  clock :: jsstring
  streamFetched :: "thrown + stream_response"
  detailFetched :: "thrown + ConversationDetailAPI response"
  listFetched :: "thrown + ConversationSummaryAPI list response"
  listSettlesFirst :: bool

definition refreshed :: "send_env \<Rightarrow> thrown + ConversationDetail \<times> ConversationSummary list" where
  "refreshed env =
     promiseAll (getConversation (detailFetched env)) (listConversations (listFetched env))
       (listSettlesFirst env)"

text \<open>
  \<open>handleSendQuestion\<close> run from start to end with nothing else in between. It returns at
  once when \<open>selectedConversationId\<close> is falsy: \<open>null\<close> or the empty string.
\<close>

definition handleSendQuestion ::
  "(jsstring \<Rightarrow> json option) \<Rightarrow> send_env \<Rightarrow> jsstring \<Rightarrow> ui_state \<Rightarrow> ui_state" where
  "handleSendQuestion parse env q st =
     (case selectedConversationId st of
        None \<Rightarrow> st
      | Some conversationId \<Rightarrow>
          if conversationId = [] then st
          else
            (case streamChat parse (streamFetched env) of
               (failure, made) \<Rightarrow>
                 reconcile (refreshed env)
                   (streamSettled failure
                     (foldl (\<lambda>s c. sessionHandler c s) (sendBegin q (clock env) st) made))))"

text \<open>\<open>ChatWindow.handleSend\<close>: the guard, the draft cleared, then \<open>onSend\<close>.\<close>

definition handleSend ::
  "(jsstring \<Rightarrow> json option) \<Rightarrow> send_env \<Rightarrow> jsstring \<Rightarrow> ui_state \<Rightarrow> ui_state" where
  "handleSend parse env input st =
     (if isStreaming st \<or> trim input = [] then st
      else handleSendQuestion parse env input (st\<lparr> question := [] \<rparr>))"

text \<open>
  \<open>ChatInput\<close>, as \<open>ChatWindow\<close> mounts it (\<open>disabled\<close> is \<open>isStreaming\<close>, \<open>onSend\<close> is
  \<open>handleSend\<close>): the Enter key and the Send button pass the trimmed draft on unless
  sending is disabled.
\<close>

definition isSendDisabled :: "bool \<Rightarrow> jsstring \<Rightarrow> bool" where
  "isSendDisabled disabled v = (disabled \<or> length (trim v) = 0)"

definition chatInputSend ::
  "(jsstring \<Rightarrow> json option) \<Rightarrow> send_env \<Rightarrow> jsstring \<Rightarrow> ui_state \<Rightarrow> ui_state" where
  "chatInputSend parse env v st =
     (if \<not> isSendDisabled (isStreaming st) v then handleSend parse env (trim v) st else st)"

text \<open>
  What \<open>ChatWindow\<close> shows: the messages of the held conversation, then one assistant
  bubble with the buffer while \<open>isStreaming\<close> is set. \<open>now\<close> is the clock at render time.
  (Its scrolling is not part of the model.)
\<close>

definition shownMessages :: "jsstring \<Rightarrow> ui_state \<Rightarrow> ConversationMessage list" where
  "shownMessages now st =
     (case conversation st of None \<Rightarrow> [] | Some c \<Rightarrow> d_messages c)
     @ (if isStreaming st
        then [\<lparr> m_role = Assistant, m_content = streamingAnswer st, m_createdAt = now,
                m_citations = None \<rparr>]
        else [])"

subsection \<open>The client as a transition system\<close>

text \<open>
  Between two \<open>await\<close>s other handlers run. The client is the screen state, the requests
  \<open>(conversation_id, question)\<close> of the calls of \<open>streamChat\<close> that have not returned, and
  the conversation identifiers of the sends that wait for their refresh.
\<close>

record client =
  ui :: ui_state
  openStreams :: "(jsstring \<times> jsstring) list"
  refreshing :: "jsstring list"

datatype action =
    Send jsstring jsstring
  | Call nat stream_call
  | Return nat "thrown option"
  | Refreshed nat "thrown + ConversationDetail \<times> ConversationSummary list"
  | Select jsstring
  | Loaded jsstring "thrown + ConversationDetailAPI response" bool
  | Create "thrown + ConversationDetailAPI response"

definition dropAt :: "nat \<Rightarrow> 'a list \<Rightarrow> 'a list" where
  "dropAt i xs = take i xs @ drop (Suc i) xs"

text \<open>
  \<open>Send input timestamp\<close>: the user submits (\<open>handleSend\<close>, then \<open>handleSendQuestion\<close> up to
  the call of \<open>streamChat\<close>; with no conversation selected, \<open>null\<close> or the empty string,
  only the draft is cleared). \<open>Call i c\<close>: open stream \<open>i\<close> calls a handler. \<open>Return i f\<close>:
  the call of \<open>streamChat\<close> for stream \<open>i\<close> returns, or throws \<open>f\<close>. \<open>Refreshed j r\<close>: the
  refresh of waiting send \<open>j\<close> settles. \<open>Select\<close>: the user picks a conversation in the
  sidebar (\<open>handleSelectConversation\<close> up to its \<open>await\<close>); \<open>Loaded\<close>: the load settles.
  \<open>Create\<close>: \<open>handleCreateConversation\<close>, taken in one step. Renaming and deleting a
  conversation are not among the actions.
\<close>

fun step :: "action \<Rightarrow> client \<Rightarrow> client" where
  "step (Send input timestamp) c =
     (if isStreaming (ui c) \<or> trim input = [] then c
      else (case selectedConversationId (ui c) of
              None \<Rightarrow> c\<lparr> ui := (ui c)\<lparr> question := [] \<rparr> \<rparr>
            | Some conversationId \<Rightarrow>
                if conversationId = [] then c\<lparr> ui := (ui c)\<lparr> question := [] \<rparr> \<rparr>
                else
                  c\<lparr> ui := sendBegin input timestamp ((ui c)\<lparr> question := [] \<rparr>),
                     openStreams := openStreams c @ [(conversationId, input)] \<rparr>))"
| "step (Call i made) c =
     (if i < length (openStreams c) then c\<lparr> ui := sessionHandler made (ui c) \<rparr> else c)"
| "step (Return i failure) c =
     (if i < length (openStreams c)
      then c\<lparr> ui := streamSettled failure (ui c),
              openStreams := dropAt i (openStreams c),
              refreshing := refreshing c @ [fst (openStreams c ! i)] \<rparr>
      else c)"
| "step (Refreshed j r) c =
     (if j < length (refreshing c)
      then c\<lparr> ui := reconcile r (ui c), refreshing := dropAt j (refreshing c) \<rparr>
      else c)"
| "step (Select conversationId) c = c\<lparr> ui := selectBegin (ui c) \<rparr>"
| "step (Loaded conversationId fetched isDesktop) c =
     c\<lparr> ui := selectLoaded conversationId fetched isDesktop (ui c) \<rparr>"
| "step (Create fetched) c = c\<lparr> ui := handleCreateConversation fetched (ui c) \<rparr>"

definition run :: "action list \<Rightarrow> client \<Rightarrow> client" where
  "run as c = foldl (\<lambda>c a. step a c) c as"

fun isSelect :: "action \<Rightarrow> bool" where
  "isSelect (Select conversationId) = True"
| "isSelect a = False"

fun isSend :: "action \<Rightarrow> bool" where
  "isSend (Send input timestamp) = True"
| "isSend a = False"

subsection \<open>Data for the examples\<close>

text \<open>A response with status 200 and the JSON body \<open>v\<close>.\<close>

definition okResponse :: "'a \<Rightarrow> thrown + 'a response" where
  "okResponse v = Inr \<lparr> r_ok = True, r_statusText = js ''OK'', r_text = [], r_json = Inr v \<rparr>"

text \<open>A conversation as the server sends it: an identifier and its messages.\<close>

definition conversationAPI :: "jsstring \<Rightarrow> ConversationMessageAPI list \<Rightarrow> ConversationDetailAPI" where
  "conversationAPI ident msgs =
     \<lparr> da_id = ident, da_title = js ''New chat'', da_messages = msgs,
       da_created_at = js ''2025-01-01T00:00:00Z'', da_updated_at = js ''2025-01-01T00:00:00Z'' \<rparr>"

definition messageAPI :: "MessageRole \<Rightarrow> jsstring \<Rightarrow> ConversationMessageAPI" where
  "messageAPI r body =
     \<lparr> ma_role = r, ma_content = body, ma_created_at = js ''2025-01-01T00:00:01Z'',
       ma_citations = None \<rparr>"

text \<open>The client with conversation \<open>ident\<close> loaded and selected, nothing in flight.\<close>

definition clientOn :: "jsstring \<Rightarrow> client" where
  "clientOn ident =
     \<lparr> ui = loadConversation ident (okResponse (conversationAPI ident [])) (initialState True),
       openStreams = [],
       refreshing = [] \<rparr>"


section \<open>The frame decoder\<close>

lemma indexOf_append: "indexOf s p = Some i \<Longrightarrow> indexOf (s @ t) p = Some i"
proof (induction s arbitrary: i)
  case Nil
  then show ?case by (cases t) (auto split: if_splits)
next
  case (Cons c cs)
  show ?case
  proof (cases "prefix p (c # cs)")
    case True
    then have "prefix p ((c # cs) @ t)" by (rule prefix_prefix)
    with True Cons.prems show ?thesis by simp
  next
    case False
    with Cons.prems obtain j where j: "indexOf cs p = Some j" "i = Suc j" by auto
    from j(1) have len: "j + length p \<le> length cs" by (rule indexOf_bound)
    have "\<not> prefix p ((c # cs) @ t)"
    proof
      assume "prefix p ((c # cs) @ t)"
      moreover from len have "length p \<le> length (c # cs)" by simp
      ultimately have "prefix p (c # cs)"
        by (metis prefix_length_prefix prefixI)
      with False show False by simp
    qed
    with Cons.IH [OF j(1)] j(2) show ?thesis by simp
  qed
qed

text \<open>Draining a buffer that grows by \<open>c\<close>: drain what is there, then go on with the rest.\<close>

lemma drain_append:
  "drain pc (b @ c) h = (case drain pc b h of (r, h') \<Rightarrow> drain pc (r @ c) h')"
proof (induction pc b h rule: drain.induct)
  case (1 pc buffer h)
  show ?case
  proof (cases "indexOf buffer [0xA, 0xA]")
    case None
    then show ?thesis by (simp add: drain.simps [of pc buffer])
  next
    case (Some i)
    then have len: "i + 2 \<le> length buffer"
      using indexOf_bound [of buffer "[0xA, 0xA]" i] by simp
    from Some have app: "indexOf (buffer @ c) [0xA, 0xA] = Some i" by (rule indexOf_append)
    from len have tk: "take i (buffer @ c) = take i buffer"
      and dr: "drop (i + 2) (buffer @ c) = drop (i + 2) buffer @ c" by simp_all
    have "drain pc (buffer @ c) h
        = drain pc (drop (i + 2) (buffer @ c)) (pc (take i (buffer @ c)) h)"
      using app by (subst drain.simps) simp
    also have "\<dots> = drain pc (drop (i + 2) buffer @ c) (pc (take i buffer) h)"
      by (simp only: tk dr)
    also have "\<dots> = (case drain pc (drop (i + 2) buffer) (pc (take i buffer) h) of
                       (r, h') \<Rightarrow> drain pc (r @ c) h')"
      by (rule "1.IH" [OF Some])
    also have "drain pc (drop (i + 2) buffer) (pc (take i buffer) h) = drain pc buffer h"
      using Some by (subst (2) drain.simps) simp
    finally show ?thesis .
  qed
qed

text \<open>What the inner loop leaves in the buffer holds no delimiter.\<close>

lemma drain_rest: "drain pc b h = (r, h') \<Longrightarrow> indexOf r [0xA, 0xA] = None"
proof (induction pc b h rule: drain.induct)
  case (1 pc buffer h)
  show ?case
  proof (cases "indexOf buffer [0xA, 0xA]")
    case None
    with "1.prems" show ?thesis by (simp add: drain.simps [of pc buffer])
  next
    case (Some i)
    with "1.prems" "1.IH" [OF Some] show ?thesis by (simp add: drain.simps [of pc buffer])
  qed
qed

lemma read_chunks_drain:
  "indexOf b [0xA, 0xA] = None \<Longrightarrow> read_chunks pc cs b h = drain pc (b @ concat cs) h"
proof (induction cs arbitrary: b h)
  case Nil
  then show ?case by (simp add: drain.simps [of pc b])
next
  case (Cons c cs)
  obtain r h' where d: "drain pc (b @ c) h = (r, h')" by (cases "drain pc (b @ c) h")
  then have "indexOf r [0xA, 0xA] = None" by (rule drain_rest)
  then have "read_chunks pc cs r h' = drain pc (r @ concat cs) h'" by (rule Cons.IH)
  with d show ?case using drain_append [of pc "b @ c" "concat cs" h] by simp
qed

lemma read_chunks_whole: "read_chunks pc cs [] h = read_chunks pc [concat cs] [] h"
proof -
  have e: "indexOf ([] :: jsstring) [0xA, 0xA] = None" by simp
  show ?thesis
    using read_chunks_drain [OF e, of pc cs h] read_chunks_drain [OF e, of pc "[concat cs]" h]
    by simp
qed

lemmas decoder_eval =
  js_def drain.simps frames_of_def record_frame_def flush_def trim_def isWhiteSpace_def

text \<open>
  Claim C2. Frame decoding does not depend on the chunking: however a text is cut into
  chunks delivered in order, the reader hands the same frames, in the same order, to
  \<open>processChunk\<close> as when the whole text comes as one chunk, and so the whole run of
  \<open>streamChat\<close> over the body (the handler calls and the \<open>completed\<close> flag) is the same.
\<close>

theorem chunking_invariant:
  "frames_of chunks tail = frames_of [concat chunks] tail
   \<and> read_body parse chunks end = read_body parse [concat chunks] end"
  by (simp add: frames_of_def read_body_def read_try_def read_chunks_whole [of _ chunks])

theorem chunking_invariant_witness:
  \<open>frames_of [js ''data: {"del'',
              js ''ta":"Hel"}'' @ [0xA, 0xA] @ js ''data: {"delta":"lo"}'' @ [0xA],
              [0xA] @ js ''data: [DONE]'' @ [0xA, 0xA]] []
   = [js ''data: {"delta":"Hel"}'', js ''data: {"delta":"lo"}'', js ''data: [DONE]'']\<close>
proof -
  have \<open>frames_of [js ''data: {"delta":"Hel"}'' @ [0xA, 0xA] @ js ''data: {"delta":"lo"}''
                   @ [0xA, 0xA] @ js ''data: [DONE]'' @ [0xA, 0xA]] []
   = [js ''data: {"delta":"Hel"}'', js ''data: {"delta":"lo"}'', js ''data: [DONE]'']\<close>
    by (simp add: decoder_eval)
  then show ?thesis
    using chunking_invariant [of \<open>[js ''data: {"del'',
              js ''ta":"Hel"}'' @ [0xA, 0xA] @ js ''data: {"delta":"lo"}'' @ [0xA],
              [0xA] @ js ''data: [DONE]'' @ [0xA, 0xA]]\<close> "[]"]
    by (simp add: js_def)
qed

text \<open>The frames as a list: the loops over any handler are a fold of it over the recorded frames.\<close>

lemma drain_record_frame:
  "drain record_frame b fs = (fst (drain record_frame b []), fs @ snd (drain record_frame b []))"
proof (induction "length b" arbitrary: b fs rule: less_induct)
  case less
  show ?case
  proof (cases "indexOf b [0xA, 0xA]")
    case None
    then show ?thesis by (simp add: drain.simps [of _ b])
  next
    case (Some i)
    then have "i + 2 \<le> length b" using indexOf_bound [of b "[0xA, 0xA]" i] by simp
    then have shorter: "length (drop (i + 2) b) < length b" by simp
    let ?b = "drop (i + 2) b" and ?f = "take i b"
    have "drain record_frame b fs = drain record_frame ?b (fs @ [?f])"
      using Some by (subst drain.simps) (simp add: record_frame_def)
    also have "\<dots> = (fst (drain record_frame ?b []), (fs @ [?f]) @ snd (drain record_frame ?b []))"
      by (rule less [OF shorter])
    finally have l: "drain record_frame b fs
        = (fst (drain record_frame ?b []), fs @ [?f] @ snd (drain record_frame ?b []))" by simp
    have "drain record_frame b [] = drain record_frame ?b [?f]"
      using Some by (subst drain.simps) (simp add: record_frame_def)
    also have "\<dots> = (fst (drain record_frame ?b []), [?f] @ snd (drain record_frame ?b []))"
      by (rule less [OF shorter])
    finally have r: "drain record_frame b []
        = (fst (drain record_frame ?b []), [?f] @ snd (drain record_frame ?b []))" .
    show ?thesis unfolding l r by simp
  qed
qed

lemma drain_frames:
  "drain pc b h = (fst (drain record_frame b []),
                   foldl (\<lambda>h f. pc f h) h (snd (drain record_frame b [])))"
proof (induction pc b h rule: drain.induct)
  case (1 pc buffer h)
  show ?case
  proof (cases "indexOf buffer [0xA, 0xA]")
    case None
    then show ?thesis by (simp add: drain.simps [of _ buffer])
  next
    case (Some i)
    let ?b = "drop (i + 2) buffer" and ?f = "take i buffer"
    have r: "drain record_frame buffer []
        = (fst (drain record_frame ?b []), [?f] @ snd (drain record_frame ?b []))"
      using Some drain_record_frame [of ?b "[?f]"]
      by (subst drain.simps) (simp add: record_frame_def)
    have "drain pc buffer h = drain pc ?b (pc ?f h)"
      using Some by (subst drain.simps) simp
    also have "\<dots> = (fst (drain record_frame ?b []),
                      foldl (\<lambda>h f. pc f h) (pc ?f h) (snd (drain record_frame ?b [])))"
      by (rule "1.IH" [OF Some])
    finally show ?thesis unfolding r by simp
  qed
qed

lemma read_chunks_frames:
  "read_chunks pc cs [] h = (fst (read_chunks record_frame cs [] []),
                             foldl (\<lambda>h f. pc f h) h (snd (read_chunks record_frame cs [] [])))"
proof -
  have e: "indexOf ([] :: jsstring) [0xA, 0xA] = None" by simp
  show ?thesis
    unfolding read_chunks_drain [OF e] by (simp add: drain_frames [of pc])
qed

lemma flush_frames: "flush pc rem h = foldl (\<lambda>h f. pc f h) h (flush record_frame rem [])"
  by (simp add: flush_def record_frame_def)

lemma frames_of_split:
  "frames_of chunks tail = snd (read_chunks record_frame chunks [] [])
     @ flush record_frame (fst (read_chunks record_frame chunks [] []) @ tail) []"
  by (simp add: frames_of_def flush_def record_frame_def split: prod.split)

subsection \<open>The end of the stream\<close>

lemma trim_empty_iff: "trim s = [] \<longleftrightarrow> list_all isWhiteSpace s"
proof
  assume t: "trim s = []"
  show "list_all isWhiteSpace s"
  proof (rule ccontr)
    assume "\<not> list_all isWhiteSpace s"
    then have ne: "dropWhile isWhiteSpace s \<noteq> []"
      by (simp add: list_all_iff)
    then have "\<not> isWhiteSpace (hd (dropWhile isWhiteSpace s))" by (rule hd_dropWhile)
    moreover from ne have "hd (dropWhile isWhiteSpace s) \<in> set (rev (dropWhile isWhiteSpace s))"
      by simp
    ultimately have "\<not> (\<forall>x\<in>set (rev (dropWhile isWhiteSpace s)). isWhiteSpace x)"
      by blast
    then have "dropWhile isWhiteSpace (rev (dropWhile isWhiteSpace s)) \<noteq> []"
      by (simp only: dropWhile_eq_Nil_conv not_False_eq_True)
    with t show False by (simp add: trim_def)
  qed
next
  assume "list_all isWhiteSpace s"
  then have d: "dropWhile isWhiteSpace s = []" by (simp add: list_all_iff)
  show "trim s = []" unfolding trim_def d by simp
qed

lemma split_lines_subset: "l \<in> set (split_lines s) \<Longrightarrow> set l \<subseteq> set s"
proof (induction s arbitrary: l)
  case Nil
  then show ?case by simp
next
  case (Cons c cs)
  show ?case
  proof (cases "c = 0xA")
    case True
    with Cons.prems have "l = [] \<or> l \<in> set (split_lines cs)" by simp
    with Cons.IH show ?thesis by auto
  next
    case False
    show ?thesis
    proof (cases "split_lines cs")
      case Nil
      with False Cons.prems show ?thesis by simp
    next
      case (Cons a list)
      with False Cons.prems have "l = c # a \<or> l \<in> set list" by simp
      moreover have "set a \<subseteq> set cs" using Cons.IH [of a] Cons by simp
      moreover have "\<And>l'. l' \<in> set list \<Longrightarrow> set l' \<subseteq> set cs" using Cons.IH Cons by simp
      ultimately show ?thesis by auto
    qed
  qed
qed

lemma not_white_d: "\<not> isWhiteSpace 100"
  by (simp add: isWhiteSpace_def)

lemma white_line_no_data:
  assumes "list_all isWhiteSpace s" "l \<in> set (split_lines s)"
  shows "\<not> prefix (js ''data:'') l"
proof
  assume "prefix (js ''data:'') l"
  then obtain r where "l = js ''data:'' @ r" by (auto simp: prefix_def)
  then have "100 \<in> set l" by (simp add: js_def)
  with split_lines_subset [OF assms(2)] have "100 \<in> set s" by auto
  with assms(1) have "isWhiteSpace 100" by (auto simp: list_all_iff)
  with not_white_d show False by simp
qed

lemma foldl_processLine_skip:
  "(\<And>l. l \<in> set ls \<Longrightarrow> \<not> prefix (js ''data:'') l) \<Longrightarrow> foldl (processLine parse) h ls = h"
  by (induction ls arbitrary: h) (simp_all add: processLine_def)

lemma processChunk_white:
  "list_all isWhiteSpace s \<Longrightarrow> processChunk parse s h = h"
  unfolding processChunk_def
  by (rule foldl_processLine_skip) (rule white_line_no_data)

lemmas payload_eval =
  processChunk_def processLine_def processPayload_def malformed_def citationOfValue_def
  mapCitation_def throwsOnRead_def

lemmas stream_eval =
  read_body_def read_try_def fresh_def decoder_eval payload_eval streamChat_def orElse_def

text \<open>
  Claim C7, as amended. When the transport ends, the remainder of the buffer is handed on as
  one final frame if it is non-empty after trimming; a remainder that is empty or holds
  only white space gives no final frame. Nothing is lost by that: in every case the
  payloads forwarded to the interpreter are those of the \<open>data:\<close> lines of the remainder.
\<close>

theorem flush_remainder:
  "flush record_frame remainder fs = (if trim remainder = [] then fs else fs @ [remainder])
   \<and> flush (processChunk parse) remainder h = processChunk parse remainder h"
  by (simp add: flush_def record_frame_def trim_empty_iff processChunk_white)

text \<open>A stream that ends inside its last frame: the frame is still interpreted.\<close>

theorem flush_remainder_witness:
  "flush record_frame (js ''data: [DONE]'') [] = [js ''data: [DONE]'']
   \<and> calls (flush (processChunk (map_of [])) (js ''data: [DONE]'') fresh) = [OnComplete]"
  using flush_remainder [of "js ''data: [DONE]''" "[]" "map_of []" fresh]
  by (simp add: decoder_eval payload_eval fresh_def)

text \<open>
  Claim C7 as stated fails: after one frame and a third newline the buffer holds a
  newline, which is not empty, and no final frame is handed on for it.
\<close>

theorem whitespace_remainder_counterexample:
  "fst (read_chunks record_frame [js ''data: [DONE]'' @ [0xA, 0xA, 0xA]] [] []) = [0xA]
   \<and> frames_of [js ''data: [DONE]'' @ [0xA, 0xA, 0xA]] [] = [js ''data: [DONE]'']"
  by (simp add: decoder_eval)

section \<open>The payload interpreter\<close>

text \<open>
  Claim C6. A payload that parses to an object whose \<open>error\<close> is a non-empty string gives
  exactly one \<open>onError\<close> call with that string and sets \<open>completed\<close>; no \<open>onToken\<close> call is
  made, whatever else the object holds, a \<open>delta\<close> string in particular. (No text that
  \<open>JSON.parse\<close> accepts is empty or reads \<open>[DONE]\<close>; for an arbitrary \<open>parse\<close> the two
  facts are premises.)
\<close>

theorem error_precedence:
  assumes "trim payload \<noteq> []" and "trim payload \<noteq> js ''[DONE]''"
    and "parse (trim payload) = Some (JObj props)"
    and "map_of props (js ''error'') = Some (JStr (e # es))"
  shows "processPayload parse payload h
         = h\<lparr> calls := calls h @ [OnError (e # es)], completed := True \<rparr>"
  using assms by (simp add: processPayload_def throwsOnRead_def)

text \<open>The payload of the specification's example, after \<open>data:\<close> and a space.\<close>

theorem error_precedence_witness:
  \<open>processPayload
      (map_of [(js ''{"error":"x","delta":"y"}'',
                JObj [(js ''error'', JStr (js ''x'')), (js ''delta'', JStr (js ''y''))])])
      (js '' {"error":"x","delta":"y"}'') \<lparr> completed = False, calls = [] \<rparr>
    = \<lparr> completed = True, calls = [OnError (js ''x'')] \<rparr>\<close>
proof -
  let ?text = \<open>js ''{"error":"x","delta":"y"}''\<close>
  let ?props = \<open>[(js ''error'', JStr (js ''x'')), (js ''delta'', JStr (js ''y''))]\<close>
  have t: \<open>trim (js '' {"error":"x","delta":"y"}'') = ?text\<close>
    by (simp add: trim_def js_def isWhiteSpace_def)
  have 1: \<open>trim (js '' {"error":"x","delta":"y"}'') \<noteq> []\<close>
    and 2: \<open>trim (js '' {"error":"x","delta":"y"}'') \<noteq> js ''[DONE]''\<close>
    unfolding t by (simp_all add: js_def)
  have 3: \<open>map_of [(?text, JObj ?props)] (trim (js '' {"error":"x","delta":"y"}''))
            = Some (JObj ?props)\<close>
    unfolding t by simp
  have 4: \<open>map_of ?props (js ''error'') = Some (JStr (120 # []))\<close>
    by (simp add: js_def)
  show ?thesis
    using error_precedence [where parse = \<open>map_of [(?text, JObj ?props)]\<close>
        and payload = \<open>js '' {"error":"x","delta":"y"}''\<close> and props = ?props
        and e = 120 and es = "[]" and h = "\<lparr> completed = False, calls = [] \<rparr>", OF 1 2 3 4]
    by (simp add: js_def)
qed

subsection \<open>Calls do not depend on what came before\<close>

lemma emits_id: "emits (\<lambda>h. h) []"
  by (simp add: emits_def)

lemma emits_comp: "emits f cs \<Longrightarrow> emits g ds \<Longrightarrow> emits (\<lambda>h. g (f h)) (cs @ ds)"
  by (simp add: emits_def)

lemma emits_fresh: "emits f cs \<Longrightarrow> calls (f fresh) = cs \<and> completed (f fresh) = list_ex terminal cs"
  by (simp add: emits_def fresh_def)

lemma emits_processPayload:
  "emits (processPayload parse payload) (calls (processPayload parse payload fresh))"
  by (simp add: emits_def fresh_def processPayload_def malformed_def Let_def
           split: option.split list.split)

lemma emits_processLine:
  "emits (\<lambda>h. processLine parse h line) (calls (processLine parse fresh line))"
proof (cases "prefix (js ''data:'') line")
  case True
  then show ?thesis using emits_processPayload [of parse "drop 5 line"] by (simp add: processLine_def)
next
  case False
  then show ?thesis by (simp add: processLine_def emits_def fresh_def)
qed

lemma emits_foldl:
  assumes "\<And>x. emits (\<lambda>h. g h x) (out x)"
  shows "emits (\<lambda>h. foldl g h xs) (concat (map out xs))"
proof (induction xs rule: rev_induct)
  case Nil
  show ?case by (simp add: emits_id)
next
  case (snoc x xs)
  from emits_comp [OF snoc assms [of x]] show ?case by simp
qed

lemma emits_processChunk:
  "emits (processChunk parse chunk) (calls (processChunk parse chunk fresh))"
proof -
  let ?out = "\<lambda>line. calls (processLine parse fresh line)"
  have e: "emits (\<lambda>h. foldl (processLine parse) h (split_lines chunk))
             (concat (map ?out (split_lines chunk)))"
    by (rule emits_foldl) (rule emits_processLine)
  from emits_fresh [OF e] have "calls (processChunk parse chunk fresh) = concat (map ?out (split_lines chunk))"
    by (simp add: processChunk_def)
  with e show ?thesis by (simp add: processChunk_def [abs_def])
qed

lemma read_try_frames:
  "read_try parse chunks (Done tail)
   = foldl (\<lambda>h f. processChunk parse f h) fresh (frames_of chunks tail)"
  unfolding read_try_def frames_of_split
  by (subst read_chunks_frames) (simp add: flush_frames [of "processChunk parse"])

lemma emits_frames:
  "emits (\<lambda>h. foldl (\<lambda>h f. processChunk parse f h) h fs)
     (concat (map (\<lambda>f. calls (processChunk parse f fresh)) fs))"
  by (rule emits_foldl) (rule emits_processChunk)

lemma read_try_settled: "completed (read_try parse chunks end) = list_ex terminal (calls (read_try parse chunks end))"
proof (cases "end")
  case (Done tail)
  show ?thesis
    unfolding Done read_try_frames using emits_fresh [OF emits_frames] by simp
next
  case (ReadFails e)
  then show ?thesis by (simp add: read_try_def split: prod.split)
qed

text \<open>
  Claim C5, as amended. Once an error call has been made the stream is marked completed, so
  the cleanup adds no completion call; the frames after it are still decoded and
  interpreted: the calls of a stream are, frame by frame, the calls each frame gives on
  its own, so the tokens and citations of later frames are still delivered.
\<close>

theorem error_then_later_frames:
  assumes "OnError m \<in> set (calls (read_try parse chunks (Done tail)))"
  shows "completed (read_try parse chunks (Done tail))
     \<and> read_body parse chunks (Done tail) = read_try parse chunks (Done tail)
     \<and> calls (read_body parse chunks (Done tail))
         = concat (map (\<lambda>frame. calls (processChunk parse frame fresh)) (frames_of chunks tail))"
proof -
  from assms have "list_ex terminal (calls (read_try parse chunks (Done tail)))"
    by (auto simp: list_ex_iff intro!: bexI [of _ "OnError m"])
  then have c: "completed (read_try parse chunks (Done tail))"
    by (simp add: read_try_settled)
  then have b: "read_body parse chunks (Done tail) = read_try parse chunks (Done tail)"
    by (simp add: read_body_def)
  have "calls (read_try parse chunks (Done tail))
      = concat (map (\<lambda>frame. calls (processChunk parse frame fresh)) (frames_of chunks tail))"
    unfolding read_try_frames using emits_fresh [OF emits_frames] by simp
  with c b show ?thesis by simp
qed

text \<open>A server error, then a token: both calls are made, in that order.\<close>

theorem error_then_later_frames_witness:
  \<open>calls (read_body
      (map_of [(js ''{"error":"x"}'', JObj [(js ''error'', JStr (js ''x''))]),
               (js ''{"delta":"y"}'', JObj [(js ''delta'', JStr (js ''y''))])])
      [js ''data: {"error":"x"}'' @ [0xA, 0xA] @ js ''data: {"delta":"y"}'' @ [0xA, 0xA]]
      (Done []))
    = [OnError (js ''x''), OnToken (js ''y'')]\<close>
proof -
  let ?parse = \<open>map_of [(js ''{"error":"x"}'', JObj [(js ''error'', JStr (js ''x''))]),
               (js ''{"delta":"y"}'', JObj [(js ''delta'', JStr (js ''y''))])]\<close>
  let ?chunks = \<open>[js ''data: {"error":"x"}'' @ [0xA, 0xA] @ js ''data: {"delta":"y"}'' @ [0xA, 0xA]]\<close>
  have f: \<open>frames_of ?chunks [] = [js ''data: {"error":"x"}'', js ''data: {"delta":"y"}'']\<close>
    by (simp add: decoder_eval)
  have e: \<open>calls (processChunk ?parse (js ''data: {"error":"x"}'') fresh) = [OnError (js ''x'')]\<close>
    by (simp add: stream_eval)
  have t: \<open>calls (processChunk ?parse (js ''data: {"delta":"y"}'') fresh) = [OnToken (js ''y'')]\<close>
    by (simp add: stream_eval)
  have a: \<open>OnError (js ''x'') \<in> set (calls (read_try ?parse ?chunks (Done [])))\<close>
    by (simp add: stream_eval)
  from error_then_later_frames [OF a]
  have "calls (read_body ?parse ?chunks (Done []))
      = concat (map (\<lambda>frame. calls (processChunk ?parse frame fresh)) (frames_of ?chunks []))"
    by (rule conjunct2 [THEN conjunct2])
  then show ?thesis unfolding f using e t by simp
qed

text \<open>
  Claim C5 as stated fails: after the error call for a malformed payload, the token of the
  next frame is delivered.
\<close>

theorem token_after_error_counterexample:
  \<open>calls (read_body
      (map_of [(js ''{"delta":"y"}'', JObj [(js ''delta'', JStr (js ''y''))])])
      [js ''data: {not json'' @ [0xA, 0xA] @ js ''data: {"delta":"y"}'' @ [0xA, 0xA]]
      (Done []))
    = [OnError (js ''Received malformed streaming payload.''), OnToken (js ''y'')]\<close>
  by (simp add: stream_eval)

text \<open>
  The same when a read fails: an error call marks the stream completed however the reader
  ends, and the calls are those of the frames decoded so far, each on its own, then the
  error call of the failed read.
\<close>

lemma error_marks_completed:
  assumes "OnError m \<in> set (calls (read_try parse chunks end))"
  shows "completed (read_try parse chunks end)
     \<and> read_body parse chunks end = read_try parse chunks end"
proof -
  from assms have "list_ex terminal (calls (read_try parse chunks end))"
    by (auto simp: list_ex_iff intro!: bexI [of _ "OnError m"])
  then have "completed (read_try parse chunks end)" by (simp add: read_try_settled)
  then show ?thesis by (simp add: read_body_def)
qed

lemma read_fails_frames:
  "calls (read_body parse chunks (ReadFails e))
   = concat (map (\<lambda>frame. calls (processChunk parse frame fresh))
       (snd (read_chunks record_frame chunks [] [])))
     @ [OnError (thrownMessage e (js ''Streaming interrupted.''))]"
proof -
  let ?fs = "snd (read_chunks record_frame chunks [] [])"
  have "read_chunks (processChunk parse) chunks [] fresh
      = (fst (read_chunks record_frame chunks [] []),
         foldl (\<lambda>h f. processChunk parse f h) fresh ?fs)"
    by (rule read_chunks_frames)
  moreover have "calls (foldl (\<lambda>h f. processChunk parse f h) fresh ?fs)
      = concat (map (\<lambda>frame. calls (processChunk parse frame fresh)) ?fs)"
    using emits_fresh [OF emits_frames] by simp
  ultimately show ?thesis
    by (simp add: read_body_def read_try_def)
qed

text \<open>
  Claim C10. For a response that is ok and has a body, \<open>streamChat\<close> makes at least one
  terminal call (\<open>onComplete\<close> or \<open>onError\<close>); and when neither the frames nor the reader
  gave one (no \<open>[DONE]\<close>, no error payload, no malformed payload, no failed read), the
  cleanup makes the \<open>onComplete\<close> call, last and exactly once.
\<close>

theorem synthesized_completion:
  assumes "sr_ok response" and "sr_body response = Some (chunks, end)"
  shows "list_ex terminal (snd (streamChat parse (Inr response)))
     \<and> (list_all (\<lambda>c. \<not> terminal c) (calls (read_try parse chunks end)) \<longrightarrow>
          snd (streamChat parse (Inr response)) = calls (read_try parse chunks end) @ [OnComplete]
          \<and> count_list (snd (streamChat parse (Inr response))) OnComplete = 1)"
proof -
  let ?t = "read_try parse chunks end"
  from assms have s: "snd (streamChat parse (Inr response)) = calls (read_body parse chunks end)"
    by (simp add: streamChat_def)
  have 1: "list_ex terminal (calls (read_body parse chunks end))"
    using read_try_settled [of parse chunks "end"] by (simp add: read_body_def Let_def)
  have 2: "calls (read_body parse chunks end) = calls ?t @ [OnComplete]
        \<and> count_list (calls (read_body parse chunks end)) OnComplete = 1"
    if n: "list_all (\<lambda>c. \<not> terminal c) (calls ?t)"
  proof -
    from n have "\<not> list_ex terminal (calls ?t)" by (simp add: list_all_iff list_ex_iff)
    then have "\<not> completed ?t" by (simp add: read_try_settled)
    then have b: "calls (read_body parse chunks end) = calls ?t @ [OnComplete]"
      by (simp add: read_body_def Let_def)
    from n have "OnComplete \<notin> set (calls ?t)" by (auto simp: list_all_iff)
    then have "count_list (calls ?t) OnComplete = 0" by (simp add: count_list_0_iff)
    with b show ?thesis by simp
  qed
  from 1 2 show ?thesis unfolding s by blast
qed

text \<open>One token frame and the end of the stream: the token, then the completion.\<close>

theorem synthesized_completion_witness:
  \<open>snd (streamChat (map_of [(js ''{"delta":"Hi"}'', JObj [(js ''delta'', JStr (js ''Hi''))])])
      (Inr \<lparr> sr_ok = True, sr_statusText = js ''OK'', sr_text = [],
             sr_body = Some ([js ''data: {"delta":"Hi"}'' @ [0xA, 0xA]], Done []) \<rparr>))
    = [OnToken (js ''Hi''), OnComplete]\<close>
proof -
  let ?parse = \<open>map_of [(js ''{"delta":"Hi"}'', JObj [(js ''delta'', JStr (js ''Hi''))])]\<close>
  let ?chunks = \<open>[js ''data: {"delta":"Hi"}'' @ [0xA, 0xA]]\<close>
  let ?response = \<open>\<lparr> sr_ok = True, sr_statusText = js ''OK'', sr_text = [],
             sr_body = Some (?chunks, Done []) \<rparr>\<close>
  have t: \<open>calls (read_try ?parse ?chunks (Done [])) = [OnToken (js ''Hi'')]\<close>
    by (simp add: stream_eval)
  have 1: "sr_ok ?response" and 2: "sr_body ?response = Some (?chunks, Done [])" by simp_all
  from synthesized_completion [OF 1 2, of ?parse] show ?thesis
    unfolding t by simp
qed

section \<open>Non-streaming requests\<close>

lemma http_not_ok:
  "\<not> r_ok response \<Longrightarrow> http (Inr response) = Inl (Error (orElse (r_text response) (r_statusText response)))"
  by (simp add: http_def)

lemma operations_not_ok:
  assumes "\<not> r_ok listed" and "\<not> r_ok detailed" and "\<not> r_ok deleted"
  shows "listConversations (Inr listed)
           = Inl (Error (orElse (r_text listed) (r_statusText listed)))
     \<and> createConversation (Inr detailed)
           = Inl (Error (orElse (r_text detailed) (r_statusText detailed)))
     \<and> getConversation (Inr detailed)
           = Inl (Error (orElse (r_text detailed) (r_statusText detailed)))
     \<and> renameConversation (Inr detailed)
           = Inl (Error (orElse (r_text detailed) (r_statusText detailed)))
     \<and> deleteConversation (Inr deleted)
           = Inl (Error (orElse (r_text deleted) (r_statusText deleted)))"
  using assms
  by (simp add: listConversations_def createConversation_def getConversation_def
        renameConversation_def deleteConversation_def http_not_ok)

lemma deleteDocument_resolves: "deleteDocument (Inr response) = Inr ()"
  by (simp add: deleteDocument_def)

text \<open>
  Claim C9. A response that is not ok makes \<open>http\<close>, and so every operation built on it,
  fail with the body text (or the status text when the body is empty), and
  \<open>deleteConversation\<close> does the same by its own check. \<open>deleteDocument\<close> has no check: on
  a 404 with a body it returns normally, where \<open>deleteConversation\<close> on the same kind of
  response fails with the body text.
\<close>

theorem deleteDocument_ignores_status:
  \<open>deleteDocument
      (Inr \<lparr> r_ok = False, r_statusText = js ''Not Found'',
             r_text = js ''{"detail":"Document not found"}'', r_json = Inr () \<rparr>)
    = Inr ()
   \<and> deleteConversation
      (Inr \<lparr> r_ok = False, r_statusText = js ''Not Found'',
             r_text = js ''{"detail":"Conversation not found"}'', r_json = Inr () \<rparr>)
    = Inl (Error (js ''{"detail":"Conversation not found"}''))\<close>
  by (simp add: deleteDocument_def deleteConversation_def orElse_def js_def)

section \<open>The summary cache\<close>

lemma take_filter_distinct:
  "distinct xs \<Longrightarrow> take n (filter (\<lambda>y. y \<noteq> x) (take (Suc n) xs)) = take n (filter (\<lambda>y. y \<noteq> x) xs)"
proof (induction xs arbitrary: n)
  case Nil
  then show ?case by simp
next
  case (Cons y ys)
  show ?case
  proof (cases "y = x")
    case True
    with Cons.prems have "x \<notin> set ys" by simp
    then have "filter (\<lambda>y. y \<noteq> x) ys = ys" "filter (\<lambda>y. y \<noteq> x) (take n ys) = take n ys"
      by (auto simp: filter_id_conv dest: in_set_takeD)
    with True show ?thesis by simp
  next
    case False
    show ?thesis
    proof (cases n)
      case 0
      then show ?thesis by simp
    next
      case (Suc m)
      from Cons.prems have "distinct ys" by simp
      from Cons.IH [OF this, of m] False Suc show ?thesis by simp
    qed
  qed
qed

lemma remdups_snoc: "remdups (xs @ [x]) = filter (\<lambda>y. y \<noteq> x) (remdups xs) @ [x]"
  by (induction xs) auto

lemma newest_first_step:
  "take 5 (x # filter (\<lambda>y. y \<noteq> x) (take 5 (rev (remdups xs)))) = take 5 (rev (remdups (xs @ [x])))"
proof -
  have "take 4 (filter (\<lambda>y. y \<noteq> x) (take (Suc 4) (rev (remdups xs))))
      = take 4 (filter (\<lambda>y. y \<noteq> x) (rev (remdups xs)))"
    by (rule take_filter_distinct) simp
  then show ?thesis
    by (simp add: remdups_snoc rev_filter numeral_eq_Suc)
qed

lemma created_cache:
  "conversations (handleCreateConversation fetched st)
   = (case createConversation fetched of
        Inl e \<Rightarrow> conversations st
      | Inr detail \<Rightarrow> take 5 (summarize detail # filter (\<lambda>c. s_id c \<noteq> d_id detail) (conversations st)))"
  by (simp add: handleCreateConversation_def Let_def split: sum.split)

lemma created_ids:
  "map s_id (take 5 (summarize detail # filter (\<lambda>c. s_id c \<noteq> d_id detail) cache))
   = take 5 (d_id detail # filter (\<lambda>i. i \<noteq> d_id detail) (map s_id cache))"
  by (simp add: take_map filter_map comp_def summarize_def)

lemma creates_ids:
  assumes "distinct (map s_id (conversations st))" and "length (conversations st) \<le> 5"
  shows "map s_id (conversations (foldl (\<lambda>st f. handleCreateConversation f st) st fetches))
       = take 5 (rev (remdups (rev (map s_id (conversations st))
                               @ [d_id d. Inr d \<leftarrow> map createConversation fetches])))"
proof (induction fetches rule: rev_induct)
  case Nil
  from assms show ?case by (simp add: distinct_remdups_id)
next
  case (snoc f fs)
  show ?case
  proof (cases "createConversation f")
    case (Inl e)
    with snoc show ?thesis by (simp add: created_cache)
  next
    case (Inr d)
    let ?C = "conversations (foldl (\<lambda>st f. handleCreateConversation f st) st fs)"
    let ?ids = "rev (map s_id (conversations st)) @ [d_id d. Inr d \<leftarrow> map createConversation fs]"
    have "map s_id (conversations (foldl (\<lambda>st f. handleCreateConversation f st) st (fs @ [f])))
        = map s_id (take 5 (summarize d # filter (\<lambda>c. s_id c \<noteq> d_id d) ?C))"
      using Inr by (simp add: created_cache)
    also have "\<dots> = take 5 (d_id d # filter (\<lambda>i. i \<noteq> d_id d) (map s_id ?C))"
      by (rule created_ids)
    also have "map s_id ?C = take 5 (rev (remdups ?ids))"
      by (rule snoc)
    also have "take 5 (d_id d # filter (\<lambda>i. i \<noteq> d_id d) (take 5 (rev (remdups ?ids))))
        = take 5 (rev (remdups (?ids @ [d_id d])))"
      by (rule newest_first_step)
    also have "?ids @ [d_id d]
        = rev (map s_id (conversations st)) @ [d_id d. Inr d \<leftarrow> map createConversation (fs @ [f])]"
      using Inr by simp
    finally show ?thesis .
  qed
qed

text \<open>
  Claim C4. A create that succeeds puts the new summary first, drops every other entry
  with its identifier and keeps five entries. So from a cache of at most five entries with
  distinct identifiers (the empty cache at mount, a server list), any sequence of creates,
  failed ones included, leaves at most five entries with distinct identifiers, newest
  first: the identifiers are the first five of the created ones, latest first and each
  once, followed by those of the starting cache.
\<close>

theorem optimistic_insert:
  assumes "distinct (map s_id (conversations st))" and "length (conversations st) \<le> 5"
  shows "(createConversation fetched = Inr detail \<longrightarrow>
            conversations (handleCreateConversation fetched st)
            = take 5 (summarize detail # filter (\<lambda>c. s_id c \<noteq> d_id detail) (conversations st)))
     \<and> (let cache = conversations (foldl (\<lambda>st f. handleCreateConversation f st) st fetches)
        in length cache \<le> 5
         \<and> distinct (map s_id cache)
         \<and> map s_id cache
            = take 5 (rev (remdups (rev (map s_id (conversations st))
                                    @ [d_id d. Inr d \<leftarrow> map createConversation fetches]))))"
proof -
  let ?cache = "conversations (foldl (\<lambda>st f. handleCreateConversation f st) st fetches)"
  let ?ids = "rev (map s_id (conversations st)) @ [d_id d. Inr d \<leftarrow> map createConversation fetches]"
  have ids: "map s_id ?cache = take 5 (rev (remdups ?ids))"
    using assms by (rule creates_ids)
  have "length (map s_id ?cache) \<le> 5" unfolding ids by simp
  then have len: "length ?cache \<le> 5" by simp
  have dist: "distinct (map s_id ?cache)" unfolding ids by simp
  have one: "createConversation fetched = Inr detail \<longrightarrow>
            conversations (handleCreateConversation fetched st)
            = take 5 (summarize detail # filter (\<lambda>c. s_id c \<noteq> d_id detail) (conversations st))"
    by (simp add: created_cache)
  from one len dist ids show ?thesis by (simp add: Let_def)
qed

text \<open>Seven creates from the empty cache leave the five latest, newest first.\<close>

theorem optimistic_insert_witness:
  "map s_id (conversations
     (foldl (\<lambda>st f. handleCreateConversation f st) (initialState True)
        (map (\<lambda>i. okResponse (conversationAPI i []))
           [js ''c1'', js ''c2'', js ''c3'', js ''c4'', js ''c5'', js ''c6'', js ''c7''])))
   = [js ''c7'', js ''c6'', js ''c5'', js ''c4'', js ''c3'']
   \<and> conversations (handleCreateConversation (okResponse (conversationAPI (js ''c1'') []))
        (initialState True))
     = [summarize (mapConversationDetail (conversationAPI (js ''c1'') []))]"
proof -
  have 1: "distinct (map s_id (conversations (initialState True)))"
    and 2: "length (conversations (initialState True)) \<le> 5"
    by (simp_all add: initialState_def)
  have c: "\<And>i. createConversation (okResponse (conversationAPI i []))
            = Inr (mapConversationDetail (conversationAPI i []))"
    by (simp add: createConversation_def http_def okResponse_def)
  have d: "\<And>i. d_id (mapConversationDetail (conversationAPI i [])) = i"
    by (simp add: mapConversationDetail_def conversationAPI_def)
  from optimistic_insert [OF 1 2, of "okResponse (conversationAPI (js ''c1'') [])"
      "mapConversationDetail (conversationAPI (js ''c1'') [])"
      "map (\<lambda>i. okResponse (conversationAPI i []))
           [js ''c1'', js ''c2'', js ''c3'', js ''c4'', js ''c5'', js ''c6'', js ''c7'']"]
  show ?thesis
    by (simp add: Let_def c d initialState_def js_def)
qed

section \<open>Sending a question\<close>

lemma reconcile_ok:
  "reconcile (Inr (d, l)) st = st\<lparr> conversation := Some d, conversations := l, streamingAnswer := [] \<rparr>"
  by (simp add: reconcile_def)

lemma reconcile_buffer: "streamingAnswer (reconcile r st) = [] \<and> isStreaming (reconcile r st) = isStreaming st"
  by (simp add: reconcile_def split: sum.split)

lemma streamSettled_flag: "\<not> isStreaming (streamSettled failure st)"
  by (simp add: streamSettled_def split: option.split)

section \<open>The client between awaits\<close>

text \<open>
  The steps of one send, taken with nothing in between, are \<open>handleSend\<close>; the two steps
  of a selection are \<open>handleSelectConversation\<close>.
\<close>

lemma run_append: "run (as @ bs) c = run bs (run as c)"
  by (simp add: run_def)

lemma run_calls_closed:
  "openStreams c = [] \<Longrightarrow> run (map (Call i) made) c = c"
  by (induction made rule: rev_induct) (simp_all add: run_def)

lemma run_calls_open:
  "i < length (openStreams c) \<Longrightarrow>
   run (map (Call i) made) c = c\<lparr> ui := foldl (\<lambda>s m. sessionHandler m s) (ui c) made \<rparr>"
proof (induction made rule: rev_induct)
  case Nil
  then show ?case by (simp add: run_def)
next
  case (snoc m ms)
  then show ?case by (simp add: run_def)
qed

lemma send_runs_as_steps:
  assumes "openStreams c = []" and "refreshing c = []"
    and "streamChat parse (streamFetched env) = (failure, made)"
  shows "ui (run ([Send input (clock env)] @ map (Call 0) made
                  @ [Return 0 failure, Refreshed 0 (refreshed env)]) c)
       = handleSend parse env input (ui c)"
proof -
  let ?sent = "run [Send input (clock env)] c"
  let ?cleared = "c\<lparr> ui := (ui c)\<lparr> question := [] \<rparr> \<rparr>"
  have split: "run ([Send input (clock env)] @ map (Call 0) made
                  @ [Return 0 failure, Refreshed 0 (refreshed env)]) c
      = run [Return 0 failure, Refreshed 0 (refreshed env)] (run (map (Call 0) made) ?sent)"
    by (simp only: run_append)
  have idle: "run [Return 0 failure, Refreshed 0 (refreshed env)] (run (map (Call 0) made) c') = c'"
    if "openStreams c' = []" "refreshing c' = []" for c'
  proof -
    have "run (map (Call 0) made) c' = c'" using that(1) by (rule run_calls_closed)
    moreover have "run [Return 0 failure, Refreshed 0 (refreshed env)] c' = c'"
      using that by (simp add: run_def)
    ultimately show ?thesis by simp
  qed
  show ?thesis
  proof (cases "isStreaming (ui c) \<or> trim input = []")
    case True
    then have s: "?sent = c" by (auto simp: run_def)
    show ?thesis
      unfolding split s idle [OF assms(1,2)] using True by (simp add: handleSend_def)
  next
    case False
    show ?thesis
    proof (cases "selectedConversationId (ui c)")
      case None
      from False None have s: "?sent = ?cleared" by (simp add: run_def)
      have i: "run [Return 0 failure, Refreshed 0 (refreshed env)]
                 (run (map (Call 0) made) ?cleared) = ?cleared"
        using assms(1,2) by (intro idle) simp_all
      show ?thesis
        unfolding split s i using False None
        by (simp add: handleSend_def handleSendQuestion_def)
    next
      case (Some conversationId)
      show ?thesis
      proof (cases "conversationId = []")
        case True
        from False Some True have s: "?sent = ?cleared" by (simp add: run_def)
        have i: "run [Return 0 failure, Refreshed 0 (refreshed env)]
                   (run (map (Call 0) made) ?cleared) = ?cleared"
          using assms(1,2) by (intro idle) simp_all
        show ?thesis
          unfolding split s i using False Some True
          by (simp add: handleSend_def handleSendQuestion_def)
      next
        case nonempty: False
        let ?c = "c\<lparr> ui := sendBegin input (clock env) ((ui c)\<lparr> question := [] \<rparr>),
                      openStreams := [(conversationId, input)] \<rparr>"
        from False Some nonempty assms(1) have s: "?sent = ?c" by (simp add: run_def)
        have o: "0 < length (openStreams ?c)" by simp
        have "ui (run [Return 0 failure, Refreshed 0 (refreshed env)]
                    (?c\<lparr> ui := foldl (\<lambda>s m. sessionHandler m s) (ui ?c) made \<rparr>))
            = reconcile (refreshed env)
                (streamSettled failure (foldl (\<lambda>s m. sessionHandler m s) (ui ?c) made))"
          using assms(2) by (simp add: run_def dropAt_def)
        then show ?thesis
          unfolding split s run_calls_open [OF o] using False Some nonempty assms(3)
          by (simp add: handleSend_def handleSendQuestion_def)
      qed
    qed
  qed
qed

lemma select_runs_as_steps:
  "ui (run [Select conversationId, Loaded conversationId fetched isDesktop] c)
   = handleSelectConversation conversationId fetched isDesktop (ui c)"
  by (simp add: run_def handleSelectConversation_def)

lemmas client_eval =
  run_def clientOn_def initialState_def okResponse_def conversationAPI_def messageAPI_def
  selectBegin_def selectLoaded_def loadConversation_def getConversation_def http_def
  mapConversationDetail_def mapConversationMessage_def sendBegin_def streamSettled_def
  reconcile_def dropAt_def trim_def isWhiteSpace_def js_def shownMessages_def

lemma sessionHandler_keeps:
  "conversation (sessionHandler made st) = conversation st
   \<and> conversations (sessionHandler made st) = conversations st
   \<and> selectedConversationId (sessionHandler made st) = selectedConversationId st
   \<and> isStreaming (sessionHandler made st) = isStreaming st"
  by (cases made) simp_all

lemma sessionHandler_shown:
  "\<not> isStreaming st \<Longrightarrow> shownMessages now (sessionHandler made st) = shownMessages now st"
  by (cases made) (simp_all add: shownMessages_def)

text \<open>While the flag is off, handler calls change nothing that is shown.\<close>

lemma calls_keep:
  "\<not> isStreaming (ui c) \<Longrightarrow>
   (let c' = run (map (\<lambda>(i, made). Call i made) later) c
    in \<not> isStreaming (ui c')
     \<and> shownMessages now (ui c') = shownMessages now (ui c)
     \<and> conversation (ui c') = conversation (ui c)
     \<and> conversations (ui c') = conversations (ui c)
     \<and> selectedConversationId (ui c') = selectedConversationId (ui c))"
proof (induction later rule: rev_induct)
  case Nil
  then show ?case by (simp add: run_def)
next
  case (snoc x xs)
  obtain i made where x: "x = (i, made)" by (cases x)
  let ?c = "run (map (\<lambda>(i, made). Call i made) xs) c"
  have r: "run (map (\<lambda>(i, made). Call i made) (xs @ [x])) c = step (Call i made) ?c"
    by (simp add: run_def x)
  from snoc have ih: "\<not> isStreaming (ui ?c)"
      "shownMessages now (ui ?c) = shownMessages now (ui c)"
      "conversation (ui ?c) = conversation (ui c)"
      "conversations (ui ?c) = conversations (ui c)"
      "selectedConversationId (ui ?c) = selectedConversationId (ui c)"
    by (simp_all add: Let_def)
  show ?case
    unfolding r Let_def
    using ih sessionHandler_keeps [of made "ui ?c"] sessionHandler_shown [OF ih(1), of now made]
    by simp
qed

lemma selectLoaded_flag:
  "isStreaming (selectLoaded conversationId fetched isDesktop st) = isStreaming st"
  by (simp add: selectLoaded_def loadConversation_def Let_def split: sum.split)

lemma selectLoaded_ok:
  "getConversation fetched = Inr detail \<Longrightarrow>
   conversation (selectLoaded conversationId fetched isDesktop st) = Some detail
   \<and> selectedConversationId (selectLoaded conversationId fetched isDesktop st) = Some conversationId"
  by (simp add: selectLoaded_def loadConversation_def Let_def)

text \<open>
  Claim C1, as amended. Selecting a conversation empties the buffer and lowers the
  streaming flag. From then on, until a question is submitted, the handler calls of any
  open stream (token, citations, completion, error), before and after the selected
  conversation has loaded, leave the held conversation, the summary list and the
  messages shown as they are: a token only grows the buffer, which is not shown while
  the flag is off. So once the selected conversation has loaded, its messages are what is
  shown. The refresh of an earlier send is not held back: when it succeeds it replaces
  the held conversation and the summary list with its results.
\<close>

theorem stale_session_after_select:
  "(let c1 = step (Select conversationId) c;
        c2 = run (map (\<lambda>(i, made). Call i made) early) c1;
        c3 = step (Loaded conversationId fetched isDesktop) c2;
        c4 = run (map (\<lambda>(i, made). Call i made) late) c3
    in streamingAnswer (ui c1) = []
     \<and> \<not> isStreaming (ui c1)
     \<and> shownMessages now (ui c2) = shownMessages now (ui c1)
     \<and> conversation (ui c2) = conversation (ui c1)
     \<and> conversations (ui c2) = conversations (ui c1)
     \<and> shownMessages now (ui c4) = shownMessages now (ui c3)
     \<and> conversation (ui c4) = conversation (ui c3)
     \<and> conversations (ui c4) = conversations (ui c1)
     \<and> (getConversation fetched = Inr detail \<longrightarrow>
          conversation (ui c4) = Some detail
          \<and> selectedConversationId (ui c4) = Some conversationId
          \<and> shownMessages now (ui c4) = d_messages detail))
   \<and> (j < length (refreshing c) \<longrightarrow>
        conversation (ui (step (Refreshed j (Inr (d, l))) c)) = Some d
        \<and> conversations (ui (step (Refreshed j (Inr (d, l))) c)) = l)"
proof -
  let ?c1 = "step (Select conversationId) c"
  let ?c2 = "run (map (\<lambda>(i, made). Call i made) early) ?c1"
  let ?c3 = "step (Loaded conversationId fetched isDesktop) ?c2"
  let ?c4 = "run (map (\<lambda>(i, made). Call i made) late) ?c3"
  have s: "streamingAnswer (ui ?c1) = []" "\<not> isStreaming (ui ?c1)"
    by (simp_all add: selectBegin_def)
  from calls_keep [OF s(2), of early now]
  have k2: "\<not> isStreaming (ui ?c2)"
      "shownMessages now (ui ?c2) = shownMessages now (ui ?c1)"
      "conversation (ui ?c2) = conversation (ui ?c1)"
      "conversations (ui ?c2) = conversations (ui ?c1)"
    by (simp_all add: Let_def)
  from k2(1) have f3: "\<not> isStreaming (ui ?c3)" by (simp add: selectLoaded_flag)
  have l3: "conversations (ui ?c3) = conversations (ui ?c2)"
    by (simp add: selectLoaded_def loadConversation_def Let_def split: sum.split)
  from calls_keep [OF f3, of late now]
  have k4: "\<not> isStreaming (ui ?c4)"
      "shownMessages now (ui ?c4) = shownMessages now (ui ?c3)"
      "conversation (ui ?c4) = conversation (ui ?c3)"
      "conversations (ui ?c4) = conversations (ui ?c3)"
      "selectedConversationId (ui ?c4) = selectedConversationId (ui ?c3)"
    by (simp_all add: Let_def)
  have ok: "conversation (ui ?c4) = Some detail
          \<and> selectedConversationId (ui ?c4) = Some conversationId
          \<and> shownMessages now (ui ?c4) = d_messages detail"
    if g: "getConversation fetched = Inr detail"
  proof -
    from selectLoaded_ok [OF g, of conversationId isDesktop "ui ?c2"]
    have "conversation (ui ?c3) = Some detail"
      "selectedConversationId (ui ?c3) = Some conversationId" by simp_all
    with k4 show ?thesis by (simp add: shownMessages_def)
  qed
  have a: "(let c1 = ?c1; c2 = run (map (\<lambda>(i, made). Call i made) early) c1;
        c3 = step (Loaded conversationId fetched isDesktop) c2;
        c4 = run (map (\<lambda>(i, made). Call i made) late) c3
    in streamingAnswer (ui c1) = []
     \<and> \<not> isStreaming (ui c1)
     \<and> shownMessages now (ui c2) = shownMessages now (ui c1)
     \<and> conversation (ui c2) = conversation (ui c1)
     \<and> conversations (ui c2) = conversations (ui c1)
     \<and> shownMessages now (ui c4) = shownMessages now (ui c3)
     \<and> conversation (ui c4) = conversation (ui c3)
     \<and> conversations (ui c4) = conversations (ui c1)
     \<and> (getConversation fetched = Inr detail \<longrightarrow>
          conversation (ui c4) = Some detail
          \<and> selectedConversationId (ui c4) = Some conversationId
          \<and> shownMessages now (ui c4) = d_messages detail))"
    unfolding Let_def using s k2 k4 l3 ok by simp
  have b: "j < length (refreshing c) \<longrightarrow>
        conversation (ui (step (Refreshed j (Inr (d, l))) c)) = Some d
        \<and> conversations (ui (step (Refreshed j (Inr (d, l))) c)) = l"
    by (simp add: reconcile_ok)
  from a b show ?thesis by (rule conjI)
qed

text \<open>
  A second question is in flight and the refresh of the first is pending when the user
  selects conversation B; a token arrives before B has loaded and another after.
\<close>

theorem stale_session_after_select_witness:
  "(let c4 = run [Send (js ''q1'') (js ''t1''), Return 0 None, Send (js ''q2'') (js ''t2''),
                  Select (js ''B''),
                  Call 0 (OnToken (js ''late'')),
                  Loaded (js ''B'') (okResponse (conversationAPI (js ''B'')
                    [messageAPI User (js ''hello'')])) True,
                  Call 0 (OnToken (js ''later''))]
               (clientOn (js ''A''))
    in selectedConversationId (ui c4) = Some (js ''B'')
     \<and> map m_content (shownMessages (js ''t3'') (ui c4)) = [js ''hello''])
   \<and> conversation (ui (step (Refreshed 0 (Inr (mapConversationDetail (conversationAPI (js ''A'') []), [])))
        (run [Send (js ''q1'') (js ''t1''), Return 0 None, Send (js ''q2'') (js ''t2'')]
           (clientOn (js ''A'')))))
     = Some (mapConversationDetail (conversationAPI (js ''A'') []))"
proof -
  let ?c = "run [Send (js ''q1'') (js ''t1''), Return 0 None, Send (js ''q2'') (js ''t2'')]
              (clientOn (js ''A''))"
  let ?B = "conversationAPI (js ''B'') [messageAPI User (js ''hello'')]"
  have r: "0 < length (refreshing ?c)"
    by (simp add: client_eval)
  have g: "getConversation (okResponse ?B) = Inr (mapConversationDetail ?B)"
    by (simp add: getConversation_def http_def okResponse_def)
  have e: "run [Send (js ''q1'') (js ''t1''), Return 0 None, Send (js ''q2'') (js ''t2''),
                  Select (js ''B''),
                  Call 0 (OnToken (js ''late'')),
                  Loaded (js ''B'') (okResponse ?B) True,
                  Call 0 (OnToken (js ''later''))]
               (clientOn (js ''A''))
         = run (map (\<lambda>(i, made). Call i made) [(0, OnToken (js ''later''))])
             (step (Loaded (js ''B'') (okResponse ?B) True)
               (run (map (\<lambda>(i, made). Call i made) [(0, OnToken (js ''late''))])
                 (step (Select (js ''B'')) ?c)))"
    by (simp add: run_def)
  let ?c4 = "run (map (\<lambda>(i, made). Call i made) [(0, OnToken (js ''later''))])
             (step (Loaded (js ''B'') (okResponse ?B) True)
               (run (map (\<lambda>(i, made). Call i made) [(0, OnToken (js ''late''))])
                 (step (Select (js ''B'')) ?c)))"
  let ?A = "mapConversationDetail (conversationAPI (js ''A'') [])"
  note T = stale_session_after_select [of "js ''B''" ?c "[(0, OnToken (js ''late''))]"
      "okResponse ?B" True "[(0, OnToken (js ''later''))]" "js ''t3''"
      "mapConversationDetail ?B" 0 ?A "[]", unfolded Let_def]
  from T g have a: "selectedConversationId (ui ?c4) = Some (js ''B'')"
    and b: "shownMessages (js ''t3'') (ui ?c4) = d_messages (mapConversationDetail ?B)"
    by blast+
  from T r have c: "conversation (ui (step (Refreshed 0 (Inr (?A, []))) ?c)) = Some ?A"
    by blast
  have m: "map m_content (d_messages (mapConversationDetail ?B)) = [js ''hello'']"
    by (simp add: mapConversationDetail_def mapConversationMessage_def
          conversationAPI_def messageAPI_def)
  show ?thesis
    unfolding e Let_def a b m using c by (simp del: step.simps)
qed

text \<open>
  Claim C1 as stated fails. A question is sent on conversation A and the user selects B.
  B is held once it has loaded; when the stream of the old send returns and its refresh
  succeeds, the held conversation is A's again while B stays selected; and a late token
  of the old stream is appended to the buffer.
\<close>

theorem stale_session_counterexample:
  "conversation (ui (run [Send (js ''q'') (js ''t1''),
                          Select (js ''B''),
                          Loaded (js ''B'') (okResponse (conversationAPI (js ''B'') [])) True]
                       (clientOn (js ''A''))))
     = Some (mapConversationDetail (conversationAPI (js ''B'') []))
   \<and> conversation (ui (run [Send (js ''q'') (js ''t1''),
                          Select (js ''B''),
                          Loaded (js ''B'') (okResponse (conversationAPI (js ''B'') [])) True,
                          Return 0 None,
                          Refreshed 0 (Inr (mapConversationDetail
                            (conversationAPI (js ''A'') [messageAPI User (js ''q'')]), []))]
                       (clientOn (js ''A''))))
     = Some (mapConversationDetail (conversationAPI (js ''A'') [messageAPI User (js ''q'')]))
   \<and> selectedConversationId (ui (run [Send (js ''q'') (js ''t1''),
                          Select (js ''B''),
                          Loaded (js ''B'') (okResponse (conversationAPI (js ''B'') [])) True,
                          Return 0 None,
                          Refreshed 0 (Inr (mapConversationDetail
                            (conversationAPI (js ''A'') [messageAPI User (js ''q'')]), []))]
                       (clientOn (js ''A''))))
     = Some (js ''B'')
   \<and> streamingAnswer (ui (run [Send (js ''q'') (js ''t1''),
                          Select (js ''B''),
                          Loaded (js ''B'') (okResponse (conversationAPI (js ''B'') [])) True,
                          Call 0 (OnToken (js ''late''))]
                       (clientOn (js ''A''))))
     = js ''late''"
  by (simp add: client_eval)

text \<open>
  The same for every run in which no question is submitted: the flag stays off, and a
  handler call at any point of the run changes nothing that is shown.
\<close>

lemma flag_stays_off:
  assumes "list_all (\<lambda>a. \<not> isSend a) as" and "\<not> isStreaming (ui c)"
  shows "\<not> isStreaming (ui (run as c))"
  using assms(1)
proof (induction as rule: rev_induct)
  case Nil
  from assms(2) show ?case by (simp add: run_def)
next
  case (snoc a as)
  then have n: "\<not> isSend a" and ih: "\<not> isStreaming (ui (run as c))" by simp_all
  have "\<not> isStreaming (ui (step a (run as c)))"
  proof (cases a)
    case (Send input timestamp)
    with n show ?thesis by simp
  next
    case (Call i made)
    with ih show ?thesis by (simp add: sessionHandler_keeps)
  next
    case (Return i failure)
    with ih show ?thesis by (simp add: streamSettled_flag)
  next
    case (Refreshed j r)
    with ih show ?thesis by (simp add: reconcile_buffer)
  next
    case (Select conversationId)
    then show ?thesis by (simp add: selectBegin_def)
  next
    case (Loaded conversationId fetched isDesktop)
    with ih show ?thesis by (simp add: selectLoaded_flag)
  next
    case (Create fetched)
    with ih show ?thesis
      by (simp add: handleCreateConversation_def Let_def split: sum.split)
  qed
  then show ?case by (simp add: run_def)
qed

lemma calls_hidden_until_send:
  assumes "list_all (\<lambda>a. \<not> isSend a) as" and "\<not> isStreaming (ui c)"
  shows "shownMessages now (ui (step (Call i made) (run as c))) = shownMessages now (ui (run as c))
     \<and> conversation (ui (step (Call i made) (run as c))) = conversation (ui (run as c))
     \<and> conversations (ui (step (Call i made) (run as c))) = conversations (ui (run as c))"
  using flag_stays_off [OF assms] sessionHandler_keeps [of made "ui (run as c)"]
    sessionHandler_shown [of "ui (run as c)" now made]
  by simp

lemma step_invariant:
  assumes "\<not> isSelect a"
    and "length (openStreams c) \<le> 1" and "openStreams c \<noteq> [] \<longrightarrow> isStreaming (ui c)"
  shows "length (openStreams (step a c)) \<le> 1
     \<and> (openStreams (step a c) \<noteq> [] \<longrightarrow> isStreaming (ui (step a c)))"
proof (cases a)
  case (Send input timestamp)
  with assms(2,3) show ?thesis
    by (cases "openStreams c") (auto simp: sendBegin_def split: option.split if_splits)
next
  case (Call i made)
  with assms(2,3) show ?thesis by (simp add: sessionHandler_keeps)
next
  case (Return i failure)
  with assms(2,3) show ?thesis
    by (cases "openStreams c") (auto simp: dropAt_def)
next
  case (Refreshed j r)
  with assms(2,3) show ?thesis by (simp add: reconcile_buffer)
next
  case (Select conversationId)
  with assms(1) show ?thesis by simp
next
  case (Loaded conversationId fetched isDesktop)
  with assms(2,3) show ?thesis by (simp add: selectLoaded_flag)
next
  case (Create fetched)
  with assms(2,3) show ?thesis
    by (simp add: handleCreateConversation_def Let_def split: sum.split)
qed

lemma run_invariant:
  assumes "list_all (\<lambda>a. \<not> isSelect a) as"
    and "length (openStreams c) \<le> 1" and "openStreams c \<noteq> [] \<longrightarrow> isStreaming (ui c)"
  shows "length (openStreams (run as c)) \<le> 1
     \<and> (openStreams (run as c) \<noteq> [] \<longrightarrow> isStreaming (ui (run as c)))"
  using assms(1)
proof (induction as rule: rev_induct)
  case Nil
  from assms(2,3) show ?case by (simp add: run_def)
next
  case (snoc a as)
  then have "\<not> isSelect a" and ih: "length (openStreams (run as c)) \<le> 1"
      "openStreams (run as c) \<noteq> [] \<longrightarrow> isStreaming (ui (run as c))"
    by simp_all
  from step_invariant [OF this] show ?case by (simp add: run_def)
qed

text \<open>
  Claim C8, as amended. While the streaming flag is set, submitting a question does
  nothing, at the input and at the window: no stream is opened, no message is appended,
  the draft stays. With no stream open at the start and no conversation selected on the
  way, at most one stream is open at any time.
\<close>

theorem reject_while_streaming:
  "(isStreaming (ui c) \<longrightarrow> step (Send input timestamp) c = c)
   \<and> (isStreaming st \<longrightarrow>
        handleSend parse env input st = st \<and> chatInputSend parse env input st = st)
   \<and> (openStreams c = [] \<and> list_all (\<lambda>a. \<not> isSelect a) as \<longrightarrow>
        length (openStreams (run as c)) \<le> 1)"
proof -
  have "length (openStreams (run as c)) \<le> 1"
    if "openStreams c = []" "list_all (\<lambda>a. \<not> isSelect a) as"
    using run_invariant [OF that(2), of c] that(1) by simp
  then show ?thesis by (simp add: handleSend_def chatInputSend_def isSendDisabled_def)
qed

text \<open>A second submit during the stream is dropped; a third, after the stream returned, is taken.\<close>

theorem reject_while_streaming_witness:
  "step (Send (js ''q2'') (js ''t2'')) (run [Send (js ''q1'') (js ''t1'')] (clientOn (js ''A'')))
     = run [Send (js ''q1'') (js ''t1'')] (clientOn (js ''A''))
   \<and> handleSend (map_of [])
        \<lparr> clock = js ''t2'', streamFetched = Inl NotAnError, detailFetched = Inl NotAnError,
          listFetched = Inl NotAnError, listSettlesFirst = False \<rparr>
        (js ''q2'') (ui (run [Send (js ''q1'') (js ''t1'')] (clientOn (js ''A''))))
     = ui (run [Send (js ''q1'') (js ''t1'')] (clientOn (js ''A'')))
   \<and> chatInputSend (map_of [])
        \<lparr> clock = js ''t2'', streamFetched = Inl NotAnError, detailFetched = Inl NotAnError,
          listFetched = Inl NotAnError, listSettlesFirst = False \<rparr>
        (js ''q2'') (ui (run [Send (js ''q1'') (js ''t1'')] (clientOn (js ''A''))))
     = ui (run [Send (js ''q1'') (js ''t1'')] (clientOn (js ''A'')))
   \<and> length (openStreams (run [Send (js ''q1'') (js ''t1''), Send (js ''q2'') (js ''t2''),
                               Call 0 (OnToken (js ''Hi'')), Return 0 None,
                               Send (js ''q3'') (js ''t3'')] (clientOn (js ''A'')))) \<le> 1"
proof -
  let ?c = "run [Send (js ''q1'') (js ''t1'')] (clientOn (js ''A''))"
  have s: "isStreaming (ui ?c)" by (simp add: client_eval)
  have o: "openStreams (clientOn (js ''A'')) = []" by (simp add: clientOn_def)
  have n: "list_all (\<lambda>a. \<not> isSelect a)
             [Send (js ''q1'') (js ''t1''), Send (js ''q2'') (js ''t2''),
              Call 0 (OnToken (js ''Hi'')), Return 0 None, Send (js ''q3'') (js ''t3'')]"
    by simp
  from reject_while_streaming [of ?c "js ''q2''" "js ''t2''" "ui ?c" "map_of []"
      "\<lparr> clock = js ''t2'', streamFetched = Inl NotAnError, detailFetched = Inl NotAnError,
          listFetched = Inl NotAnError, listSettlesFirst = False \<rparr>"]
    reject_while_streaming [where c = "clientOn (js ''A'')" and as =
      "[Send (js ''q1'') (js ''t1''), Send (js ''q2'') (js ''t2''),
        Call 0 (OnToken (js ''Hi'')), Return 0 None, Send (js ''q3'') (js ''t3'')]"]
    s o n
  show ?thesis by blast
qed

text \<open>
  Claim C8 as stated fails. Selecting a conversation lowers the flag while the stream of
  the earlier send is still open; the next submit is taken, and two streams are open.
\<close>

theorem two_open_streams_counterexample:
  "openStreams (run [Send (js ''q1'') (js ''t1''),
                     Select (js ''B''),
                     Loaded (js ''B'') (okResponse (conversationAPI (js ''B'') [])) True,
                     Send (js ''q2'') (js ''t2'')]
                  (clientOn (js ''A'')))
   = [(js ''A'', js ''q1''), (js ''B'', js ''q2'')]"
  by (simp add: client_eval)

section \<open>Reconciliation\<close>




end
